theory Spec2Isabelle
  imports Main
begin

section \<open>C strings and the libc functions bro-cut.c calls\<close>

text \<open>
  A C string is the run of bytes before the first NUL byte. Every \<open>string\<close> that the
  functions below receive as a \<open>char *\<close> is such a run; \<open>cstr\<close> reads one out of a
  buffer of bytes.
\<close>

abbreviation NUL :: char where "NUL \<equiv> CHR 0x00"
abbreviation TAB :: char where "TAB \<equiv> CHR 0x09"
abbreviation NL :: char where "NL \<equiv> CHR 0x0A"
abbreviation BSL :: char where "BSL \<equiv> CHR 0x5C"

definition cstr :: "string \<Rightarrow> string" where
  "cstr bytes = takeWhile (\<lambda>c. c \<noteq> NUL) bytes"

text \<open>\<open>strncmp0 a b n\<close> is \<open>!strncmp(a, b, n)\<close> for C strings \<open>a\<close> and \<open>b\<close>.\<close>

definition strncmp0 :: "string \<Rightarrow> string \<Rightarrow> nat \<Rightarrow> bool" where
  "strncmp0 a b n = (take n a = take n b)"

text \<open>
  The tokens that successive calls \<open>strsep(&p, delim)\<close> return until \<open>p\<close> is NULL, for
  a delimiter string of one byte \<open>d\<close>. When \<open>d\<close> is NUL the delimiter string is empty
  and the only token is the whole string, which is what the equations give on a C string
  (it holds no NUL).
\<close>

fun strsep_tokens :: "char \<Rightarrow> string \<Rightarrow> string list" where
  "strsep_tokens d [] = [[]]"
| "strsep_tokens d (c # cs) =
     (if c = d then [] # strsep_tokens d cs
      else (case strsep_tokens d cs of
              [] \<Rightarrow> [[c]]
            | f # fs \<Rightarrow> (c # f) # fs))"

text \<open>
  \<open>strtol(s, NULL, 16)\<close> of the C standard, for a 64-bit \<open>long\<close>: leading white space,
  an optional sign, an optional \<open>0x\<close> or \<open>0X\<close>, then the longest run of hexadecimal
  digits; 0 when there is no digit; the value is clamped to the range of \<open>long\<close>.
\<close>

definition isspace :: "char \<Rightarrow> bool" where
  "isspace c = (c = CHR 0x20 \<or> c = CHR 0x09 \<or> c = CHR 0x0A \<or> c = CHR 0x0B
                \<or> c = CHR 0x0C \<or> c = CHR 0x0D)"

definition hexval :: "char \<Rightarrow> int option" where
  "hexval c =
     (let n = (of_char c :: int) in
      if 48 \<le> n \<and> n \<le> 57 then Some (n - 48)
      else if 97 \<le> n \<and> n \<le> 102 then Some (n - 87)
      else if 65 \<le> n \<and> n \<le> 70 then Some (n - 55)
      else None)"

fun hex_digits :: "int \<Rightarrow> string \<Rightarrow> int" where
  "hex_digits acc [] = acc"
| "hex_digits acc (c # cs) =
     (case hexval c of
        None \<Rightarrow> acc
      | Some v \<Rightarrow> hex_digits (acc * 16 + v) cs)"

definition skip_0x :: "string \<Rightarrow> string" where
  "skip_0x s =
     (case s of
        z # x # h # rest \<Rightarrow>
          (if z = CHR ''0'' \<and> (x = CHR ''x'' \<or> x = CHR ''X'') \<and> hexval h \<noteq> None
           then h # rest else s)
      | _ \<Rightarrow> s)"

definition LONG_MAX :: int where "LONG_MAX = 2 ^ 63 - 1"
definition LONG_MIN :: int where "LONG_MIN = - (2 ^ 63)"

definition strtol16 :: "string \<Rightarrow> int" where
  "strtol16 s =
     (let s1 = dropWhile isspace s;
          neg = (s1 \<noteq> [] \<and> hd s1 = CHR ''-'');
          s2 = (if s1 \<noteq> [] \<and> (hd s1 = CHR ''-'' \<or> hd s1 = CHR ''+'') then tl s1 else s1);
          v = hex_digits 0 (skip_0x s2);
          r = (if neg then - v else v)
      in max LONG_MIN (min LONG_MAX r))"

section \<open>The data of bro-cut.c\<close>

text \<open>
  \<open>struct useropts\<close>. \<open>num_columns\<close> is the length of \<open>columns\<close>; the field \<open>ofs\<close>
  of the source is \<open>opt_ofs\<close> here, since \<open>struct logparams\<close> has an \<open>ofs\<close> too.
\<close>

record useropts =
  showhdr :: int
  negate :: int
  timeconv :: int
  columns :: "string list"
  opt_ofs :: string
  timefmt :: string

text \<open>
  \<open>struct logparams\<close>. \<open>num_out_indexes\<close> is the length of \<open>out_indexes\<close>.
  \<open>tmp_fields\<close> is scratch space that every function fills before it reads it, so it is
  a local value of the functions below. \<open>ifs\<close> and \<open>ofs\<close> are the first bytes of the
  two-byte arrays of the source, whose second byte is always NUL.
\<close>

record logparams =
  out_indexes :: "int list"
  idx_range :: nat
  time_cols :: "int list"
  num_fields :: nat
  ifs :: char
  ofs :: char

section \<open>The functions of bro-cut.c\<close>

fun string_index_from :: "nat \<Rightarrow> string list \<Rightarrow> string \<Rightarrow> int" where
  "string_index_from i [] needle = - 1"
| "string_index_from i (h # hs) needle =
     (if h = needle then int i else string_index_from (Suc i) hs needle)"

definition string_index :: "string list \<Rightarrow> nat \<Rightarrow> string \<Rightarrow> int" where
  "string_index haystack haystack_size needle =
     string_index_from 0 (take haystack_size haystack) needle"

definition parsesep :: "string \<Rightarrow> char" where
  "parsesep sepstr =
     (if strncmp0 sepstr [BSL, CHR ''x''] 2
      then char_of (strtol16 (drop 2 sepstr))
      else (case sepstr of [] \<Rightarrow> NUL | c # _ \<Rightarrow> c))"

text \<open>
  \<open>find_timecol\<close>: \<open>Inl\<close> is the diagnostic of the failing return (the caller stops the
  run and reads \<open>time_cols\<close> no more), \<open>Inr\<close> the parameters after a return of 0.
\<close>

definition find_timecol :: "string \<Rightarrow> logparams \<Rightarrow> string + logparams" where
  "find_timecol line lp =
     (let toks = strsep_tokens (ifs lp) line in
      if length toks < idx_range lp
      then Inl (''bro-cut: log header does not have enough fields'' @ [NL])
      else Inr (lp\<lparr>time_cols :=
                  map (\<lambda>field. if field = ''time'' then 1 else 0) (take (idx_range lp) toks)\<rparr>))"

text \<open>The loop of the branch without \<open>-n\<close>: the indexes, and \<open>maxval\<close> after the loop.\<close>

fun select_loop :: "string list \<Rightarrow> nat \<Rightarrow> string list \<Rightarrow> int \<Rightarrow> int list \<times> int" where
  "select_loop tmp_fields nf [] maxval = ([], maxval)"
| "select_loop tmp_fields nf (col # cols) maxval =
     (let v = string_index tmp_fields nf col;
          (rest, m) = select_loop tmp_fields nf cols (if v > maxval then v else maxval)
      in (v # rest, m))"

text \<open>The loop of the \<open>-n\<close> branch, over the fields from index \<open>idx\<close> on.\<close>

fun negate_loop :: "string list \<Rightarrow> string list \<Rightarrow> nat \<Rightarrow> int \<Rightarrow> int list \<times> int" where
  "negate_loop cols [] idx maxval = ([], maxval)"
| "negate_loop cols (field # rest_fields) idx maxval =
     (if string_index cols (length cols) field = - 1
      then (let (rest, m) = negate_loop cols rest_fields (Suc idx)
                              (if int idx > maxval then int idx else maxval)
            in (int idx # rest, m))
      else negate_loop cols rest_fields (Suc idx) maxval)"

text \<open>
  \<open>find_output_indexes\<close>, with every allocation succeeding. The counting loop calls
  \<open>strchr(field, lp->ifs[0])\<close>; when that byte is NUL, \<open>strchr\<close> returns the terminator,
  the loop steps over it and goes on reading past the end of the buffer: the result
  \<open>None\<close>.
\<close>

definition find_output_indexes :: "string \<Rightarrow> logparams \<Rightarrow> useropts \<Rightarrow> logparams option" where
  "find_output_indexes line lp bopts =
     (if ifs lp = NUL then None
      else
        let nf = Suc (length (filter (\<lambda>c. c = ifs lp) line));
            lp1 = lp\<lparr>num_fields := nf\<rparr>
        in if columns bopts = []
           then Some (lp1\<lparr>out_indexes := map int [0..<nf], idx_range := nf\<rparr>)
           else
             let tmp_fields = strsep_tokens (ifs lp) line;
                 (out, maxval) =
                    (if negate bopts = 0
                     then select_loop tmp_fields nf (columns bopts) 0
                     else negate_loop (columns bopts) (take nf tmp_fields) 0 0)
             in Some (lp1\<lparr>out_indexes := out, idx_range := nat (maxval + 1)\<rparr>))"

text \<open>
  The time conversion of \<open>output_indexes\<close> (lines 284 to 295: \<open>atol\<close>, \<open>localtime\<close>
  or \<open>gmtime\<close>, \<open>strftime\<close> and the diagnostic of a truncated timestamp) depends on
  the time zone of the process; it is a parameter: from \<open>timeconv\<close>, \<open>timefmt\<close> and
  the field to the text written to stdout and to stderr. The source hands the result of
  \<open>localtime\<close> or \<open>gmtime\<close> to \<open>strftime\<close> unchecked; for a time out of their range
  that result is NULL and the process dies there: the value \<open>None\<close>.
\<close>

type_synonym tconv = "int \<Rightarrow> string \<Rightarrow> string \<Rightarrow> (string \<times> string) option"

definition output_field ::
  "tconv \<Rightarrow> nat \<Rightarrow> string list \<Rightarrow> bool \<Rightarrow> bool \<Rightarrow> logparams \<Rightarrow> useropts \<Rightarrow> int
     \<Rightarrow> (string \<times> string) option" where
  "output_field tc hdr tmp_fields dotimeconv dotimetypeconv lp bopts idxval =
     (if dotimeconv \<and> time_cols lp ! nat idxval \<noteq> 0
      then tc (timeconv bopts) (timefmt bopts) (tmp_fields ! nat idxval)
      else if dotimetypeconv \<and> tmp_fields ! (nat idxval + hdr) = ''time''
      then Some (''string'', [])
      else Some (tmp_fields ! (nat idxval + hdr), []))"

text \<open>
  The second loop of \<open>output_indexes\<close>: what it writes to stdout and to stderr, or
  \<open>None\<close> when the process dies in a time conversion.
\<close>

fun output_loop ::
  "(int \<Rightarrow> (string \<times> string) option) \<Rightarrow> string \<Rightarrow> bool \<Rightarrow> int list
     \<Rightarrow> (string \<times> string) option" where
  "output_loop field_out sep firstdone [] = Some ([], [])"
| "output_loop field_out sep firstdone (idxval # rest) =
     (case (if idxval \<noteq> - 1 then field_out idxval else Some ([], [])) of
        None \<Rightarrow> None
      | Some (fo, fe) \<Rightarrow>
          (case output_loop field_out sep True rest of
             None \<Rightarrow> None
           | Some (ro, re) \<Rightarrow> Some ((if firstdone then sep else []) @ fo @ ro, fe @ re)))"

text \<open>
  \<open>output_indexes\<close>: the text written to stdout and to stderr, or \<open>None\<close> when the
  process dies in a time conversion. \<open>fputs(lp->ofs, stdout)\<close> writes the C string in
  \<open>lp->ofs\<close>, which is empty when the separator byte is NUL.
\<close>

definition output_indexes ::
  "tconv \<Rightarrow> nat \<Rightarrow> string \<Rightarrow> logparams \<Rightarrow> useropts \<Rightarrow> (string \<times> string) option" where
  "output_indexes tc hdr line lp bopts =
     (let dotimeconv = (timeconv bopts \<noteq> 0 \<and> hdr = 0);
          idxrange = idx_range lp + hdr;
          toks = strsep_tokens (ifs lp) line
      in if length toks < idxrange
         then Some ([], ''bro-cut: skipping log line (not enough fields)'' @ [NL])
         else
           let tmp_fields = take idxrange toks;
               dotimetypeconv = (timeconv bopts \<noteq> 0 \<and> hdr \<noteq> 0 \<and> tmp_fields ! 0 = ''#types'')
           in (case output_loop
                     (output_field tc hdr tmp_fields dotimeconv dotimetypeconv lp bopts)
                     (cstr [ofs lp]) (hdr \<noteq> 0) (out_indexes lp) of
                 None \<Rightarrow> None
               | Some (so, se) \<Rightarrow>
                   Some ((if hdr \<noteq> 0 then tmp_fields ! 0 else []) @ so @ [NL], se)))"

section \<open>The driver\<close>

text \<open>
  The locals of \<open>bro_cut\<close> that live across iterations of its loop, with the text written
  so far to stdout and to stderr.
\<close>

record runstate =
  lparams :: logparams
  headers_seen :: int
  prev_line_hdr :: int
  prev_fields_line :: int
  ret :: int
  stdout :: string
  stderr :: string

text \<open>
  How an iteration of the loop ends: at the end of the body or at a \<open>continue\<close>, at a
  \<open>break\<close>, or with the death of the process (a read past the end of the line buffer,
  or a time conversion of a time out of range).
\<close>

datatype flow = Continue runstate | Break runstate | Crash

definition init_state :: runstate where
  "init_state =
     \<lparr>lparams = \<lparr>out_indexes = [], idx_range = 0, time_cols = [], num_fields = 0,
                  ifs = TAB, ofs = TAB\<rparr>,
      headers_seen = 0, prev_line_hdr = 0, prev_fields_line = 0, ret = 0,
      stdout = [], stderr = []\<rparr>"

text \<open>
  In the functions below \<open>buf\<close> is the buffer that \<open>getline\<close> filled, without its last
  byte, which the loop overwrites with NUL; \<open>getline\<close> puts one more NUL behind the
  bytes it read. So \<open>line\<close> is \<open>cstr buf\<close>, and \<open>line + k\<close> is \<open>cstr (drop k buf)\<close>
  for every offset \<open>k\<close> that the source uses: it uses \<open>line + k\<close> only after
  \<open>strncmp\<close> found \<open>k - 1\<close> bytes of a prefix in \<open>line\<close>.
\<close>

definition count_header :: "runstate \<Rightarrow> runstate" where
  "count_header st =
     (if prev_line_hdr st = 0
      then st\<lparr>prev_line_hdr := 1,
              headers_seen := (if headers_seen st < 2 then headers_seen st + 1
                               else headers_seen st)\<rparr>
      else st)"

text \<open>The chain of \<open>if\<close>s on the kind of header line (lines 372 to 400).\<close>

definition header_kind :: "useropts \<Rightarrow> runstate \<Rightarrow> string \<Rightarrow> flow" where
  "header_kind bopts st buf =
     (let line = cstr buf; lp = lparams st in
      if strncmp0 line ''#separator '' 11 then
        (let sep = parsesep (cstr (drop 11 buf));
             uofs = (case opt_ofs bopts of [] \<Rightarrow> NUL | c # _ \<Rightarrow> c)
         in Continue (st\<lparr>lparams := lp\<lparr>ifs := sep, ofs := (if uofs \<noteq> NUL then uofs else sep)\<rparr>\<rparr>))
      else if strncmp0 line ''#fields'' 7 then
        (case find_output_indexes (cstr (drop 8 buf)) lp bopts of
           None \<Rightarrow> Crash
         | Some lp' \<Rightarrow> Continue (st\<lparr>prev_fields_line := 1, lparams := lp'\<rparr>))
      else if strncmp0 line ''#types'' 6 then
        (if prev_fields_line st = 0
         then Break (st\<lparr>stderr := stderr st @ ''bro-cut: bad log header (missing #fields line)'' @ [NL],
                        ret := 1\<rparr>)
         else if timeconv bopts \<noteq> 0 then
           (case find_timecol (cstr (drop 7 buf)) lp of
              Inl msg \<Rightarrow> Break (st\<lparr>prev_fields_line := 0, stderr := stderr st @ msg, ret := 1\<rparr>)
            | Inr lp' \<Rightarrow> Continue (st\<lparr>prev_fields_line := 0, lparams := lp'\<rparr>))
         else Continue (st\<lparr>prev_fields_line := 0\<rparr>))
      else Continue st)"

text \<open>The decision to output the header line (lines 402 to 411).\<close>

definition show_header :: "tconv \<Rightarrow> useropts \<Rightarrow> runstate \<Rightarrow> string \<Rightarrow> flow" where
  "show_header tc bopts st line =
     (if showhdr bopts \<ge> headers_seen st
      then (if strncmp0 line ''#fields'' 7 \<or> strncmp0 line ''#types'' 6
            then (case output_indexes tc 1 line (lparams st) bopts of
                    None \<Rightarrow> Crash
                  | Some (so, se) \<Rightarrow>
                      Continue (st\<lparr>stdout := stdout st @ so, stderr := stderr st @ se\<rparr>))
            else Continue (st\<lparr>stdout := stdout st @ line @ [NL]\<rparr>))
      else Continue st)"

text \<open>The body of the loop of \<open>bro_cut\<close>.\<close>

definition loop_body :: "tconv \<Rightarrow> useropts \<Rightarrow> runstate \<Rightarrow> string \<Rightarrow> flow" where
  "loop_body tc bopts st buf =
     (let line = cstr buf in
      if prev_fields_line st \<noteq> 0 \<and> \<not> strncmp0 line ''#types'' 6
      then Break (st\<lparr>stderr := stderr st @ ''bro-cut: bad log header (missing #types line)'' @ [NL],
                     ret := 1\<rparr>)
      else if take 1 line \<noteq> ''#''
      then (case output_indexes tc 0 line (lparams st) bopts of
              None \<Rightarrow> Crash
            | Some (so, se) \<Rightarrow>
                Continue (st\<lparr>prev_line_hdr := 0, stdout := stdout st @ so,
                             stderr := stderr st @ se\<rparr>))
      else (case header_kind bopts (count_header st) buf of
              Continue st' \<Rightarrow> show_header tc bopts st' line
            | Break st' \<Rightarrow> Break st'
            | Crash \<Rightarrow> Crash))"

text \<open>
  The loop over the lines that \<open>getline\<close> returns, each with its newline when it has one.
  \<open>Continue\<close>: the loop ended at the end of the input; \<open>Break\<close>: at a \<open>break\<close>.
\<close>

fun bro_cut_loop :: "tconv \<Rightarrow> useropts \<Rightarrow> runstate \<Rightarrow> string list \<Rightarrow> flow" where
  "bro_cut_loop tc bopts st [] = Continue st"
| "bro_cut_loop tc bopts st (l # ls) =
     (case loop_body tc bopts st (butlast l) of
        Continue st' \<Rightarrow> bro_cut_loop tc bopts st' ls
      | Break st' \<Rightarrow> Break st'
      | Crash \<Rightarrow> Crash)"

text \<open>What successive calls of \<open>getline\<close> read from a stream, until it returns -1.\<close>

fun getlines :: "string \<Rightarrow> string list" where
  "getlines [] = []"
| "getlines (c # cs) =
     (if c = NL then [c] # getlines cs
      else (case getlines cs of
              [] \<Rightarrow> [[c]]
            | l # ls \<Rightarrow> (c # l) # ls))"

text \<open>
  \<open>bro_cut\<close> on the bytes of stdin: the value returned, stdout and stderr. \<open>None\<close>:
  the process died before \<open>bro_cut\<close> returned.
\<close>

definition bro_cut :: "tconv \<Rightarrow> useropts \<Rightarrow> string \<Rightarrow> (int \<times> string \<times> string) option" where
  "bro_cut tc bopts input =
     (case bro_cut_loop tc bopts init_state (getlines input) of
        Continue st \<Rightarrow> Some (ret st, stdout st, stderr st)
      | Break st \<Rightarrow> Some (ret st, stdout st, stderr st)
      | Crash \<Rightarrow> None)"

text \<open>
  The options of \<open>main\<close>: the values before the \<open>getopt\<close> loop, and the \<open>switch\<close> on
  an option byte with its argument. \<open>None\<close>: the process exits with status 1.
\<close>

definition init_opts :: "string option \<Rightarrow> useropts" where
  "init_opts envtimefmt =
     \<lparr>showhdr = 0, negate = 0, timeconv = 0, columns = [], opt_ofs = [],
      timefmt = (case envtimefmt of Some f \<Rightarrow> f | None \<Rightarrow> ''%Y-%m-%dT%H:%M:%S%z'')\<rparr>"

definition getopt_case :: "useropts \<Rightarrow> char \<times> string \<Rightarrow> useropts option" where
  "getopt_case bopts copt =
     (let (c, optarg) = copt in
      if c = CHR ''c'' then Some (bopts\<lparr>showhdr := 1\<rparr>)
      else if c = CHR ''C'' then Some (bopts\<lparr>showhdr := 2\<rparr>)
      else if c = CHR ''n'' then Some (bopts\<lparr>negate := 1\<rparr>)
      else if c = CHR ''F'' then
        (if length optarg \<noteq> 1 then None else Some (bopts\<lparr>opt_ofs := optarg\<rparr>))
      else if c = CHR ''d'' then Some (bopts\<lparr>timeconv := 1\<rparr>)
      else if c = CHR ''u'' then Some (bopts\<lparr>timeconv := 2\<rparr>)
      else if c = CHR ''D'' then Some (bopts\<lparr>timeconv := 1, timefmt := optarg\<rparr>)
      else if c = CHR ''U'' then Some (bopts\<lparr>timeconv := 2, timefmt := optarg\<rparr>)
      else None)"

fun getopt_loop :: "useropts \<Rightarrow> (char \<times> string) list \<Rightarrow> useropts option" where
  "getopt_loop bopts [] = Some bopts"
| "getopt_loop bopts (copt # rest) =
     (case getopt_case bopts copt of
        None \<Rightarrow> None
      | Some bopts' \<Rightarrow> getopt_loop bopts' rest)"

text \<open>
  The options that \<open>main\<close> passes to \<open>bro_cut\<close>, from the value of the environment
  variable, the options that \<open>getopt\<close> finds and the remaining arguments.
\<close>

definition main_opts ::
  "string option \<Rightarrow> (char \<times> string) list \<Rightarrow> string list \<Rightarrow> useropts option" where
  "main_opts envtimefmt copts args =
     map_option (\<lambda>bopts. bopts\<lparr>columns := args\<rparr>) (getopt_loop (init_opts envtimefmt) copts)"

section \<open>Notions of the specification\<close>

text \<open>The fields of an output line, joined by the output separator.\<close>

fun join :: "string \<Rightarrow> string list \<Rightarrow> string" where
  "join sep [] = []"
| "join sep [x] = x"
| "join sep (x # y # ys) = x @ sep @ join sep (y # ys)"

text \<open>First-match lookup of a requested name in the declared names.\<close>

fun first_match :: "string list \<Rightarrow> string \<Rightarrow> nat option" where
  "first_match [] c = None"
| "first_match (n # ns) c = (if n = c then Some 0 else map_option Suc (first_match ns c))"

text \<open>The positions, from \<open>idx\<close> on, of the fields whose name is not among \<open>cols\<close>.\<close>

definition kept_of :: "string list \<Rightarrow> nat \<Rightarrow> string list \<Rightarrow> int list" where
  "kept_of cols idx fs =
     map (\<lambda>p. int (fst p)) (filter (\<lambda>p. snd p \<notin> set cols) (enumerate idx fs))"

text \<open>
  A line as \<open>getline\<close> returned it is a header line when, cut before its last byte, it
  begins with \<open>#\<close>.
\<close>

definition is_header :: "string \<Rightarrow> bool" where
  "is_header l = (take 1 (cstr (butlast l)) = ''#'')"

text \<open>
  The number of header blocks that begin in a list of lines: the header lines that follow
  a line that is no header line or, when \<open>prev\<close> is false, stand first.
\<close>

fun header_blocks :: "bool \<Rightarrow> string list \<Rightarrow> nat" where
  "header_blocks prev [] = 0"
| "header_blocks prev (l # ls) =
     (if is_header l then (if prev then 0 else 1) + header_blocks True ls
      else header_blocks False ls)"

text \<open>The last header line of a list of lines.\<close>

fun last_header :: "string list \<Rightarrow> string option" where
  "last_header [] = None"
| "last_header (l # ls) =
     (case last_header ls of
        Some h \<Rightarrow> Some h
      | None \<Rightarrow> if is_header l then Some l else None)"

section \<open>The separator of a \<open>#separator\<close> line\<close>

lemma hexval_range: "hexval c = Some v \<Longrightarrow> 0 \<le> v \<and> v \<le> 15"
  by (auto simp: hexval_def Let_def split: if_splits)

lemma hexval_not_special:
  "hexval c = Some v \<Longrightarrow>
     \<not> isspace c \<and> c \<noteq> CHR ''-'' \<and> c \<noteq> CHR ''+'' \<and> c \<noteq> CHR ''x'' \<and> c \<noteq> CHR ''X''"
  by (auto simp: hexval_def isspace_def Let_def split: if_splits)

lemma hex_digits_stop: "rest = [] \<or> hexval (hd rest) = None \<Longrightarrow> hex_digits acc rest = acc"
  by (cases rest) auto

lemma skip_0x_two:
  "hexval h1 = Some v1 \<Longrightarrow> hexval h2 = Some v2 \<Longrightarrow> skip_0x (h1 # h2 # rest) = h1 # h2 # rest"
  using hexval_not_special[of h2 v2] by (auto simp: skip_0x_def split: list.splits)

lemma strtol16_two:
  assumes "hexval h1 = Some v1" "hexval h2 = Some v2" "rest = [] \<or> hexval (hd rest) = None"
  shows "strtol16 (h1 # h2 # rest) = 16 * v1 + v2"
proof -
  have ns: "\<not> isspace h1" "h1 \<noteq> CHR ''-''" "h1 \<noteq> CHR ''+''"
    using hexval_not_special[OF assms(1)] by auto
  have r: "0 \<le> v1" "v1 \<le> 15" "0 \<le> v2" "v2 \<le> 15"
    using hexval_range[OF assms(1)] hexval_range[OF assms(2)] by auto
  have "hex_digits 0 (h1 # h2 # rest) = 16 * v1 + v2"
    using assms hex_digits_stop[OF assms(3)] by simp
  then show ?thesis
    using ns r assms by (simp add: strtol16_def skip_0x_two LONG_MAX_def LONG_MIN_def)
qed

lemma strtol16_nodigits:
  assumes "rest = [] \<or> (\<not> isspace (hd rest) \<and> hd rest \<noteq> CHR ''-'' \<and> hd rest \<noteq> CHR ''+''
                          \<and> hexval (hd rest) = None)"
  shows "strtol16 rest = 0"
proof (cases rest)
  case Nil
  then show ?thesis by (simp add: strtol16_def skip_0x_def LONG_MAX_def LONG_MIN_def)
next
  case (Cons c cs)
  with assms have c: "\<not> isspace c" "c \<noteq> CHR ''-''" "c \<noteq> CHR ''+''" "hexval c = None" by auto
  have "skip_0x (c # cs) = c # cs \<or> c = CHR ''0''"
    by (auto simp: skip_0x_def split: list.splits)
  moreover have "hexval (CHR ''0'') \<noteq> None" by (simp add: hexval_def)
  ultimately have "skip_0x (c # cs) = c # cs" using c by auto
  then show ?thesis using c Cons by (simp add: strtol16_def LONG_MAX_def LONG_MIN_def)
qed

text \<open>
  Claim C5, as the code has it. \<open>parsesep\<close> is a total function, so it never aborts, and:
  a specification that does not begin with the two bytes backslash and \<open>x\<close> resolves to
  its first byte (NUL for the empty one); the prefix followed by two hexadecimal digits
  and no third one resolves to the byte those two digits denote, so that \<open>\x09\<close> and a
  literal tab resolve to the same byte; the prefix followed by nothing, or by a byte that
  is no hexadecimal digit, sign or white space, resolves to the byte 0.
\<close>

theorem parsesep_cases:
  "(take 2 s \<noteq> [BSL, CHR ''x''] \<longrightarrow> parsesep s = (case s of [] \<Rightarrow> NUL | c # _ \<Rightarrow> c))
   \<and> (hexval h1 = Some v1 \<and> hexval h2 = Some v2 \<and> (rest = [] \<or> hexval (hd rest) = None)
        \<longrightarrow> parsesep ([BSL, CHR ''x'', h1, h2] @ rest) = char_of (16 * v1 + v2))
   \<and> parsesep [BSL, CHR ''x'', CHR ''0'', CHR ''9''] = parsesep [TAB]
   \<and> (rest' = [] \<or> (\<not> isspace (hd rest') \<and> hd rest' \<noteq> CHR ''-'' \<and> hd rest' \<noteq> CHR ''+''
                       \<and> hexval (hd rest') = None)
        \<longrightarrow> parsesep ([BSL, CHR ''x''] @ rest') = NUL)"
proof (intro conjI impI)
  assume "take 2 s \<noteq> [BSL, CHR ''x'']"
  then show "parsesep s = (case s of [] \<Rightarrow> NUL | c # _ \<Rightarrow> c)"
    by (simp add: parsesep_def strncmp0_def)
next
  assume "hexval h1 = Some v1 \<and> hexval h2 = Some v2 \<and> (rest = [] \<or> hexval (hd rest) = None)"
  then show "parsesep ([BSL, CHR ''x'', h1, h2] @ rest) = char_of (16 * v1 + v2)"
    by (simp add: parsesep_def strncmp0_def strtol16_two)
next
  have "hexval (CHR ''0'') = Some 0" "hexval (CHR ''9'') = Some 9" by (simp_all add: hexval_def)
  then have "strtol16 ''09'' = 9" using strtol16_two[of "CHR ''0''" 0 "CHR ''9''" 9 "[]"] by simp
  then show "parsesep [BSL, CHR ''x'', CHR ''0'', CHR ''9''] = parsesep [TAB]"
    by (simp add: parsesep_def strncmp0_def char_of_def)
next
  assume "rest' = [] \<or> (\<not> isspace (hd rest') \<and> hd rest' \<noteq> CHR ''-'' \<and> hd rest' \<noteq> CHR ''+''
                       \<and> hexval (hd rest') = None)"
  then have "strtol16 rest' = 0" by (rule strtol16_nodigits)
  then show "parsesep ([BSL, CHR ''x''] @ rest') = NUL"
    by (simp add: parsesep_def strncmp0_def char_of_def)
qed

text \<open>
  The theorem at \<open>a,b\<close>, at the escape \<open>\x2c\<close> of a comma, and at the bare prefix.
\<close>

theorem parsesep_cases_witness:
  "parsesep ''a,b'' = CHR ''a'' \<and> parsesep [BSL, CHR ''x'', CHR ''2'', CHR ''c''] = CHR '',''
   \<and> parsesep [BSL, CHR ''x'', CHR ''0'', CHR ''9''] = parsesep [TAB]
   \<and> parsesep [BSL, CHR ''x''] = NUL"
proof -
  have h: "hexval (CHR ''2'') = Some 2 \<and> hexval (CHR ''c'') = Some 12
           \<and> ([] = [] \<or> hexval (hd []) = None)"
    by (simp add: hexval_def)
  have t: "take 2 ''a,b'' \<noteq> [BSL, CHR ''x'']" by simp
  show ?thesis
    using parsesep_cases[of "''a,b''" "CHR ''2''" 2 "CHR ''c''" 12 "[]" "[]"] h t
    by (simp add: char_of_def)
qed

text \<open>
  Claim C5 as stated fails: the malformed escape \<open>\xZZ\<close> resolves to the byte 0, not to
  its first byte, the backslash; and in \<open>\x091\<close> the byte is that of all three digits
  (\<open>0x91\<close>), not of the two that follow the prefix (\<open>0x09\<close>).
\<close>

theorem parsesep_malformed_counterexample:
  "parsesep [BSL, CHR ''x'', CHR ''Z'', CHR ''Z''] = NUL
   \<and> parsesep [BSL, CHR ''x'', CHR ''Z'', CHR ''Z''] \<noteq> hd [BSL, CHR ''x'', CHR ''Z'', CHR ''Z'']
   \<and> parsesep [BSL, CHR ''x'', CHR ''0'', CHR ''9'', CHR ''1''] = CHR 0x91"
  by (simp add: parsesep_def strncmp0_def strtol16_def skip_0x_def hexval_def isspace_def
        LONG_MAX_def LONG_MIN_def char_of_def)

section \<open>Tokens, lookups and the loops over them\<close>

lemma strsep_tokens_nonempty: "strsep_tokens d s \<noteq> []"
  by (induction s) (auto split: list.splits)

lemma length_strsep_tokens:
  "length (strsep_tokens d s) = Suc (length (filter (\<lambda>c. c = d) s))"
  by (induction s) (auto split: list.splits)

lemma getlines_nonempty: "l \<in> set (getlines s) \<Longrightarrow> l \<noteq> []"
  by (induction s arbitrary: l) (auto split: if_splits list.splits)

lemma find_timecol_length:
  "find_timecol line lp = Inr lp' \<Longrightarrow>
     length (time_cols lp') = idx_range lp \<and> idx_range lp' = idx_range lp
       \<and> out_indexes lp' = out_indexes lp"
  by (auto simp: find_timecol_def Let_def split: if_splits)

lemma string_index_from_notin:
  "needle \<notin> set hs \<Longrightarrow> string_index_from i hs needle = - 1"
  by (induction hs arbitrary: i) auto

lemma string_index_from_in:
  "needle \<in> set hs \<Longrightarrow>
     \<exists>k < length hs. string_index_from i hs needle = int (i + k) \<and> hs ! k = needle
        \<and> (\<forall>j < k. hs ! j \<noteq> needle)"
proof (induction hs arbitrary: i)
  case Nil
  then show ?case by simp
next
  case (Cons h hs)
  show ?case
  proof (cases "h = needle")
    case True
    then show ?thesis by (intro exI[of _ 0]) simp
  next
    case False
    with Cons.prems have "needle \<in> set hs" by simp
    from Cons.IH[OF this, of "Suc i"] obtain k where
      k: "k < length hs" "string_index_from (Suc i) hs needle = int (Suc i + k)"
         "hs ! k = needle" "\<forall>j < k. hs ! j \<noteq> needle" by blast
    show ?thesis
    proof (intro exI[of _ "Suc k"] conjI allI impI)
      fix j assume "j < Suc k"
      then show "(h # hs) ! j \<noteq> needle" using False k(4) by (cases j) auto
    qed (use k False in auto)
  qed
qed

lemma string_index_eq_minus1:
  "(string_index hs (length hs) needle = - 1) = (needle \<notin> set hs)"
proof
  assume a: "string_index hs (length hs) needle = - 1"
  show "needle \<notin> set hs"
  proof
    assume "needle \<in> set hs"
    from string_index_from_in[OF this, of 0] a show False
      by (auto simp: string_index_def)
  qed
next
  assume "needle \<notin> set hs"
  then show "string_index hs (length hs) needle = - 1"
    by (simp add: string_index_def string_index_from_notin)
qed

lemma string_index_found:
  assumes "needle \<in> set hs"
  shows "\<exists>k < length hs. string_index hs (length hs) needle = int k \<and> hs ! k = needle
           \<and> (\<forall>j < k. hs ! j \<noteq> needle)"
  using string_index_from_in[OF assms, of 0] by (simp add: string_index_def)

lemma Max_insert_max:
  "finite S \<Longrightarrow> Max (insert (if v > m then v else m) S) = Max (insert (m::int) (insert v S))"
  by (cases "S = {}") (auto simp: max_def)

lemma select_loop_eq:
  "select_loop tf nf cols m =
     (map (string_index tf nf) cols, Max (insert m (set (map (string_index tf nf) cols))))"
proof (induction cols arbitrary: m)
  case Nil
  then show ?case by simp
next
  case (Cons c cols)
  show ?case
    by (simp add: Cons.IH Let_def Max_insert_max[symmetric] insert_commute del: Max_insert)
qed

lemma negate_loop_eq:
  "negate_loop cols fs idx m = (kept_of cols idx fs, Max (insert m (set (kept_of cols idx fs))))"
proof (induction fs arbitrary: idx m)
  case Nil
  then show ?case by (simp add: kept_of_def)
next
  case (Cons f fs)
  show ?case
  proof (cases "f \<in> set cols")
    case True
    then show ?thesis
      by (simp add: Cons.IH string_index_eq_minus1 kept_of_def)
  next
    case False
    then show ?thesis
      by (simp add: Cons.IH string_index_eq_minus1 kept_of_def Let_def
            Max_insert_max[symmetric] insert_commute del: Max_insert)
  qed
qed

lemma enumerate_nth: "enumerate 0 fs = map (\<lambda>i. (i, fs ! i)) [0..<length fs]"
proof -
  have "enumerate 0 (map ((!) fs) [0..<length fs]) = map (\<lambda>k. (k, fs ! k)) [0..<length fs]"
    by (rule enumerate_map_upt)
  then show ?thesis by (simp add: map_nth)
qed

lemma kept_of_0:
  "kept_of cols 0 fs = map int (filter (\<lambda>i. fs ! i \<notin> set cols) [0..<length fs])"
  by (simp add: kept_of_def enumerate_nth filter_map comp_def)

lemma kept_of_names:
  "map (\<lambda>i. fs ! nat i) (kept_of cols 0 fs) = filter (\<lambda>n. n \<notin> set cols) fs"
proof -
  have "map (\<lambda>i. fs ! nat i) (kept_of cols 0 fs)
        = map ((!) fs) (filter (\<lambda>i. fs ! i \<notin> set cols) [0..<length fs])"
    by (simp add: kept_of_0 comp_def)
  also have "\<dots> = filter (\<lambda>n. n \<notin> set cols) (map ((!) fs) [0..<length fs])"
    by (simp add: filter_map comp_def)
  finally show ?thesis by (simp add: map_nth)
qed

lemma join_Cons: "join sep (x # xs) = x @ concat (map (\<lambda>y. sep @ y) xs)"
  by (induction xs arbitrary: x) auto

lemma output_loop_None:
  "\<exists>i \<in> set idxs. i \<noteq> - 1 \<and> f i = None \<Longrightarrow> output_loop f sep b idxs = None"
proof (induction idxs arbitrary: b)
  case Nil
  then show ?case by simp
next
  case (Cons a idxs)
  show ?case
  proof (cases "a \<noteq> - 1 \<and> f a = None")
    case True
    then show ?thesis by simp
  next
    case False
    with Cons.prems have "\<exists>i \<in> set idxs. i \<noteq> - 1 \<and> f i = None" by auto
    from Cons.IH[OF this] show ?thesis by (simp split: option.splits)
  qed
qed

lemma output_loop_True:
  "\<forall>i \<in> set idxs. i \<noteq> - 1 \<longrightarrow> f i = Some (g i) \<Longrightarrow>
     output_loop f sep True idxs =
       Some (concat (map (\<lambda>i. sep @ (if i \<noteq> - 1 then fst (g i) else [])) idxs),
             concat (map (\<lambda>i. if i \<noteq> - 1 then snd (g i) else []) idxs))"
  by (induction idxs) (auto simp: case_prod_beta)

lemma output_loop_False:
  assumes "\<forall>i \<in> set idxs. i \<noteq> - 1 \<longrightarrow> f i = Some (g i)"
  shows "output_loop f sep False idxs =
           Some (join sep (map (\<lambda>i. if i \<noteq> - 1 then fst (g i) else []) idxs),
                 concat (map (\<lambda>i. if i \<noteq> - 1 then snd (g i) else []) idxs))"
proof (cases idxs)
  case Nil
  then show ?thesis by simp
next
  case (Cons i rest)
  with assms have r: "\<forall>i \<in> set rest. i \<noteq> - 1 \<longrightarrow> f i = Some (g i)"
    and h: "i \<noteq> - 1 \<longrightarrow> f i = Some (g i)" by auto
  show ?thesis
    unfolding Cons using h
    by (auto simp: output_loop_True[OF r] join_Cons comp_def case_prod_beta)
qed

lemma output_indexes_skip:
  "length (strsep_tokens (ifs lp) line) < idx_range lp + hdr \<Longrightarrow>
     output_indexes tc hdr line lp bopts
       = Some ([], ''bro-cut: skipping log line (not enough fields)'' @ [NL])"
  by (simp add: output_indexes_def Let_def)

lemma output_indexes_data_plain:
  assumes "idx_range lp \<le> length (strsep_tokens (ifs lp) line)"
      and "\<forall>i \<in> set (out_indexes lp). i = - 1 \<or> (0 \<le> i \<and> i < int (idx_range lp))"
  shows "output_indexes tc 0 line lp bopts =
           (if \<exists>i \<in> set (out_indexes lp).
                 i \<noteq> - 1 \<and> timeconv bopts \<noteq> 0 \<and> time_cols lp ! nat i \<noteq> 0
                 \<and> tc (timeconv bopts) (timefmt bopts) (strsep_tokens (ifs lp) line ! nat i) = None
            then None
            else Some
              (join (cstr [ofs lp])
                 (map (\<lambda>i. if i = - 1 then []
                            else if timeconv bopts \<noteq> 0 \<and> time_cols lp ! nat i \<noteq> 0
                            then (case tc (timeconv bopts) (timefmt bopts)
                                          (strsep_tokens (ifs lp) line ! nat i) of
                                    Some (t, e) \<Rightarrow> t | None \<Rightarrow> [])
                            else strsep_tokens (ifs lp) line ! nat i)
                      (out_indexes lp)) @ [NL],
               concat
                 (map (\<lambda>i. if i \<noteq> - 1 \<and> timeconv bopts \<noteq> 0 \<and> time_cols lp ! nat i \<noteq> 0
                            then (case tc (timeconv bopts) (timefmt bopts)
                                          (strsep_tokens (ifs lp) line ! nat i) of
                                    Some (t, e) \<Rightarrow> e | None \<Rightarrow> [])
                            else [])
                      (out_indexes lp))))"
proof -
  let ?toks = "strsep_tokens (ifs lp) line"
  let ?tcv = "\<lambda>i. tc (timeconv bopts) (timefmt bopts) (?toks ! nat i)"
  let ?isT = "\<lambda>i. timeconv bopts \<noteq> 0 \<and> time_cols lp ! nat i \<noteq> 0"
  define f where "f = output_field tc 0 (take (idx_range lp) ?toks) (timeconv bopts \<noteq> 0) False lp bopts"
  define g where "g = (\<lambda>i. if ?isT i then (case ?tcv i of Some p \<Rightarrow> p | None \<Rightarrow> ([], []))
                            else (?toks ! nat i, []))"
  have fv: "\<And>i. i \<in> set (out_indexes lp) \<Longrightarrow> i \<noteq> - 1 \<Longrightarrow>
               f i = (if ?isT i then ?tcv i else Some (?toks ! nat i, []))"
  proof -
    fix i assume "i \<in> set (out_indexes lp)" "i \<noteq> - 1"
    with assms(2) have "nat i < idx_range lp" by auto
    then show "f i = (if ?isT i then ?tcv i else Some (?toks ! nat i, []))"
      by (simp add: f_def output_field_def)
  qed
  have oi: "output_indexes tc 0 line lp bopts =
              (case output_loop f (cstr [ofs lp]) False (out_indexes lp) of
                 None \<Rightarrow> None | Some (so, se) \<Rightarrow> Some (so @ [NL], se))"
    using assms(1) by (simp add: output_indexes_def Let_def f_def split: option.splits)
  show ?thesis
  proof (cases "\<exists>i \<in> set (out_indexes lp). i \<noteq> - 1 \<and> ?isT i \<and> ?tcv i = None")
    case True
    then have "\<exists>i \<in> set (out_indexes lp). i \<noteq> - 1 \<and> f i = None" using fv by auto
    from output_loop_None[OF this] True show ?thesis by (simp add: oi)
  next
    case False
    have a: "\<forall>i \<in> set (out_indexes lp). i \<noteq> - 1 \<longrightarrow> f i = Some (g i)"
    proof (intro ballI impI)
      fix i assume i: "i \<in> set (out_indexes lp)" "i \<noteq> - 1"
      show "f i = Some (g i)"
      proof (cases "?isT i")
        case True
        with False i obtain p where "?tcv i = Some p" by auto
        with True fv[OF i] show ?thesis by (simp add: g_def)
      next
        case False
        with fv[OF i] show ?thesis by (auto simp: g_def)
      qed
    qed
    have m1: "map (\<lambda>i. if i \<noteq> - 1 then fst (g i) else []) (out_indexes lp)
              = map (\<lambda>i. if i = - 1 then []
                            else if ?isT i
                            then (case ?tcv i of Some (t, e) \<Rightarrow> t | None \<Rightarrow> [])
                            else ?toks ! nat i) (out_indexes lp)"
      by (intro map_cong[OF refl]) (auto simp: g_def split: option.splits)
    have m2: "map (\<lambda>i. if i \<noteq> - 1 then snd (g i) else []) (out_indexes lp)
              = map (\<lambda>i. if i \<noteq> - 1 \<and> ?isT i
                            then (case ?tcv i of Some (t, e) \<Rightarrow> e | None \<Rightarrow> [])
                            else []) (out_indexes lp)"
      by (intro map_cong[OF refl]) (auto simp: g_def split: option.splits)
    have "output_indexes tc 0 line lp bopts =
            Some (join (cstr [ofs lp]) (map (\<lambda>i. if i \<noteq> - 1 then fst (g i) else []) (out_indexes lp)) @ [NL],
                  concat (map (\<lambda>i. if i \<noteq> - 1 then snd (g i) else []) (out_indexes lp)))"
      unfolding oi output_loop_False[OF a] by simp
    then have "output_indexes tc 0 line lp bopts =
            Some (join (cstr [ofs lp])
                    (map (\<lambda>i. if i = - 1 then []
                            else if ?isT i
                            then (case ?tcv i of Some (t, e) \<Rightarrow> t | None \<Rightarrow> [])
                            else ?toks ! nat i) (out_indexes lp)) @ [NL],
                  concat (map (\<lambda>i. if i \<noteq> - 1 \<and> ?isT i
                            then (case ?tcv i of Some (t, e) \<Rightarrow> e | None \<Rightarrow> [])
                            else []) (out_indexes lp)))"
      by (simp only: m1 m2)
    moreover have "\<not> (\<exists>i \<in> set (out_indexes lp).
                 i \<noteq> - 1 \<and> timeconv bopts \<noteq> 0 \<and> time_cols lp ! nat i \<noteq> 0
                 \<and> tc (timeconv bopts) (timefmt bopts) (strsep_tokens (ifs lp) line ! nat i) = None)"
      using False by blast
    ultimately show ?thesis by (simp only: if_False conj_assoc)
  qed
qed

lemma output_indexes_hdr_plain:
  assumes "Suc (idx_range lp) \<le> length (strsep_tokens (ifs lp) line)"
      and "\<forall>i \<in> set (out_indexes lp). i = - 1 \<or> (0 \<le> i \<and> i < int (idx_range lp))"
  shows "output_indexes tc 1 line lp bopts =
           Some
             (join (cstr [ofs lp])
                (hd (strsep_tokens (ifs lp) line) #
                 map (\<lambda>i. if i = - 1 then []
                           else if timeconv bopts \<noteq> 0 \<and> hd (strsep_tokens (ifs lp) line) = ''#types''
                                   \<and> strsep_tokens (ifs lp) line ! (nat i + 1) = ''time''
                           then ''string''
                           else strsep_tokens (ifs lp) line ! (nat i + 1))
                     (out_indexes lp)) @ [NL],
              [])"
proof -
  let ?toks = "strsep_tokens (ifs lp) line"
  let ?tt = "timeconv bopts \<noteq> 0 \<and> hd ?toks = ''#types''"
  define f where "f = output_field tc 1 (take (Suc (idx_range lp)) ?toks) False ?tt lp bopts"
  define g where "g = (\<lambda>i. (if ?tt \<and> ?toks ! (nat i + 1) = ''time'' then ''string''
                             else ?toks ! (nat i + 1), []::string))"
  have h: "take (Suc (idx_range lp)) ?toks ! 0 = hd ?toks"
    using strsep_tokens_nonempty[of "ifs lp" line] by (cases ?toks) auto
  have a: "\<forall>i \<in> set (out_indexes lp). i \<noteq> - 1 \<longrightarrow> f i = Some (g i)"
  proof (intro ballI impI)
    fix i assume "i \<in> set (out_indexes lp)" "i \<noteq> - 1"
    with assms(2) have "nat i < idx_range lp" by auto
    then show "f i = Some (g i)" by (simp add: f_def g_def output_field_def)
  qed
  have oi: "output_indexes tc 1 line lp bopts =
              (case output_loop f (cstr [ofs lp]) True (out_indexes lp) of
                 None \<Rightarrow> None | Some (so, se) \<Rightarrow> Some (hd ?toks @ so @ [NL], se))"
    using assms(1) h by (simp add: output_indexes_def Let_def f_def split: option.splits)
  have m1: "map (\<lambda>i. if i \<noteq> - 1 then fst (g i) else []) (out_indexes lp)
            = map (\<lambda>i. if i = - 1 then []
                           else if timeconv bopts \<noteq> 0 \<and> hd ?toks = ''#types''
                                   \<and> ?toks ! (nat i + 1) = ''time''
                           then ''string'' else ?toks ! (nat i + 1)) (out_indexes lp)"
    by (intro map_cong[OF refl]) (auto simp: g_def)
  have m2: "concat (map (\<lambda>i. if i \<noteq> - 1 then snd (g i) else []) (out_indexes lp)) = []"
    by (auto simp: g_def)
  have "output_indexes tc 1 line lp bopts =
          Some (join (cstr [ofs lp]) (hd ?toks # map (\<lambda>i. if i \<noteq> - 1 then fst (g i) else []) (out_indexes lp)) @ [NL],
                concat (map (\<lambda>i. if i \<noteq> - 1 then snd (g i) else []) (out_indexes lp)))"
    unfolding oi output_loop_True[OF a] by (simp add: join_Cons comp_def)
  then show ?thesis by (simp only: m1 m2)
qed

lemma string_index_from_first_match:
  "string_index_from i hs c = (case first_match hs c of None \<Rightarrow> - 1 | Some k \<Rightarrow> int (i + k))"
  by (induction hs arbitrary: i) (auto split: option.splits)

lemma string_index_first_match:
  "string_index hs (length hs) c = (case first_match hs c of None \<Rightarrow> - 1 | Some k \<Rightarrow> int k)"
  by (simp add: string_index_def string_index_from_first_match split: option.splits)

lemma first_match_None: "(first_match ns c = None) = (c \<notin> set ns)"
  by (induction ns) auto

lemma first_match_Some:
  "first_match ns c = Some k \<Longrightarrow> k < length ns \<and> ns ! k = c \<and> (\<forall>j < k. ns ! j \<noteq> c)"
proof (induction ns arbitrary: k)
  case Nil
  then show ?case by simp
next
  case (Cons n ns)
  show ?case
  proof (cases "n = c")
    case True
    with Cons.prems show ?thesis by simp
  next
    case False
    with Cons.prems obtain k' where k': "first_match ns c = Some k'" "k = Suc k'" by auto
    from Cons.IH[OF k'(1)] have ih: "k' < length ns" "ns ! k' = c" "\<forall>j < k'. ns ! j \<noteq> c" by auto
    have "\<forall>j < Suc k'. (n # ns) ! j \<noteq> c"
    proof (intro allI impI)
      fix j assume "j < Suc k'"
      then show "(n # ns) ! j \<noteq> c" using False ih(3) by (cases j) auto
    qed
    then show ?thesis using ih k'(2) by simp
  qed
qed

lemma find_output_indexes_all:
  assumes "ifs lp \<noteq> NUL" "columns bopts = []"
  shows "find_output_indexes line lp bopts =
           Some (lp\<lparr>num_fields := length (strsep_tokens (ifs lp) line),
                    out_indexes := map int [0..<length (strsep_tokens (ifs lp) line)],
                    idx_range := length (strsep_tokens (ifs lp) line)\<rparr>)"
  using assms by (simp add: find_output_indexes_def Let_def length_strsep_tokens)

lemma Max_insert0_ge: "(0::int) \<le> Max (insert 0 (set out))"
  by (rule Max_ge) auto

lemma find_output_indexes_select:
  assumes "ifs lp \<noteq> NUL" "columns bopts \<noteq> []" "negate bopts = 0"
  shows "\<exists>lp'. find_output_indexes line lp bopts = Some lp'
    \<and> out_indexes lp' = map (string_index (strsep_tokens (ifs lp) line)
                                   (length (strsep_tokens (ifs lp) line))) (columns bopts)
    \<and> int (idx_range lp') = Max (insert 0 (set (out_indexes lp'))) + 1
    \<and> num_fields lp' = length (strsep_tokens (ifs lp) line)
    \<and> ifs lp' = ifs lp \<and> ofs lp' = ofs lp \<and> time_cols lp' = time_cols lp"
proof -
  let ?names = "strsep_tokens (ifs lp) line"
  let ?out = "map (string_index ?names (length ?names)) (columns bopts)"
  let ?lp' = "lp\<lparr>num_fields := length ?names, out_indexes := ?out,
                 idx_range := nat (Max (insert 0 (set ?out)) + 1)\<rparr>"
  have "find_output_indexes line lp bopts = Some ?lp'"
    using assms
    by (simp add: find_output_indexes_def Let_def length_strsep_tokens[symmetric] select_loop_eq)
  moreover have "int (idx_range ?lp') = Max (insert 0 (set (out_indexes ?lp'))) + 1"
    using Max_insert0_ge[of ?out] by (simp del: Max_insert set_map)
  ultimately show ?thesis
    by (intro exI[of _ ?lp']) (simp del: Max_insert set_map)
qed

lemma find_output_indexes_negate:
  assumes "ifs lp \<noteq> NUL" "columns bopts \<noteq> []" "negate bopts \<noteq> 0"
  shows "\<exists>lp'. find_output_indexes line lp bopts = Some lp'
    \<and> out_indexes lp' = kept_of (columns bopts) 0 (strsep_tokens (ifs lp) line)
    \<and> int (idx_range lp') = Max (insert 0 (set (out_indexes lp'))) + 1
    \<and> num_fields lp' = length (strsep_tokens (ifs lp) line)
    \<and> ifs lp' = ifs lp \<and> ofs lp' = ofs lp \<and> time_cols lp' = time_cols lp"
proof -
  let ?names = "strsep_tokens (ifs lp) line"
  let ?out = "kept_of (columns bopts) 0 ?names"
  let ?lp' = "lp\<lparr>num_fields := length ?names, out_indexes := ?out,
                 idx_range := nat (Max (insert 0 (set ?out)) + 1)\<rparr>"
  have "find_output_indexes line lp bopts = Some ?lp'"
    using assms
    by (simp add: find_output_indexes_def Let_def length_strsep_tokens[symmetric] negate_loop_eq)
  moreover have "int (idx_range ?lp') = Max (insert 0 (set (out_indexes ?lp'))) + 1"
    using Max_insert0_ge[of ?out] by (simp del: Max_insert set_map)
  ultimately show ?thesis
    by (intro exI[of _ ?lp']) (simp del: Max_insert set_map)
qed

lemma Max_insert0_bound:
  "(i::int) \<in> set out \<Longrightarrow> i < Max (insert 0 (set out)) + 1"
proof -
  assume "i \<in> set out"
  then have "i \<le> Max (insert 0 (set out))" by (intro Max_ge) auto
  then show ?thesis by linarith
qed

lemma Max_insert0_resolved:
  "Max (insert 0 (set out)) = Max (insert (0::int) (set (filter (\<lambda>i. i \<noteq> - 1) out)))"
proof (rule Max_eqI)
  show "finite (insert 0 (set out))" by simp
next
  fix y assume y: "y \<in> insert 0 (set out)"
  show "y \<le> Max (insert 0 (set (filter (\<lambda>i. i \<noteq> - 1) out)))"
  proof (cases "y = - 1")
    case True
    have "(0::int) \<le> Max (insert 0 (set (filter (\<lambda>i. i \<noteq> - 1) out)))" by simp
    with True show ?thesis by linarith
  next
    case False
    with y have "y \<in> insert 0 (set (filter (\<lambda>i. i \<noteq> - 1) out))" by auto
    then show ?thesis by (intro Max_ge) auto
  qed
next
  have "Max (insert 0 (set (filter (\<lambda>i. i \<noteq> - 1) out))) \<in> insert 0 (set (filter (\<lambda>i. i \<noteq> - 1) out))"
    by (intro Max_in) auto
  then show "Max (insert 0 (set (filter (\<lambda>i. i \<noteq> - 1) out))) \<in> insert 0 (set out)" by auto
qed

lemma Max_insert0_nonneg:
  assumes "xs \<noteq> []" "\<forall>x \<in> set xs. (0::int) \<le> x"
  shows "Max (insert 0 (set xs)) = Max (set xs)"
proof -
  from assms obtain x where x: "x \<in> set xs" "0 \<le> x" by (cases xs) auto
  then have "0 \<le> Max (set xs)" by (meson List.finite_set Max_ge order_trans)
  then show ?thesis using assms(1) by (simp add: max_def)
qed

lemma resolved_of_columns:
  "filter (\<lambda>i. i \<noteq> - 1) (map (string_index names (length names)) cols)
     = map (string_index names (length names)) (filter (\<lambda>c. c \<in> set names) cols)"
  by (induction cols) (auto simp: string_index_eq_minus1)

lemma string_index_nonneg:
  "string_index names (length names) c \<noteq> - 1 \<Longrightarrow> 0 \<le> string_index names (length names) c"
  by (simp add: string_index_first_match split: option.splits)

lemma string_index_less:
  "string_index names (length names) c < int (length names)"
  using first_match_Some[of names c]
  by (auto simp: string_index_first_match split: option.splits)

lemma kept_of_0_range:
  "i \<in> set (kept_of cols 0 names) \<Longrightarrow> 0 \<le> i \<and> i < int (length names)"
  by (auto simp: kept_of_0)

lemma Max_insert0_less:
  assumes "\<forall>i \<in> set out. i < (n::int)" "0 < n"
  shows "Max (insert 0 (set out)) < n"
  using assms by (subst Max_less_iff) auto

lemma find_output_indexes_valid:
  assumes "find_output_indexes line lp bopts = Some lp'"
  shows "(\<forall>i \<in> set (out_indexes lp'). i = - 1 \<or> (0 \<le> i \<and> i < int (idx_range lp')))
         \<and> 1 \<le> idx_range lp' \<and> idx_range lp' \<le> length (strsep_tokens (ifs lp) line)
         \<and> ifs lp' = ifs lp \<and> ofs lp' = ofs lp \<and> time_cols lp' = time_cols lp"
proof -
  let ?names = "strsep_tokens (ifs lp) line"
  have nz: "ifs lp \<noteq> NUL" using assms by (auto simp: find_output_indexes_def split: if_splits)
  have pos: "0 < int (length ?names)" using strsep_tokens_nonempty[of "ifs lp" line] by simp
  consider (all) "columns bopts = []" | (sel) "columns bopts \<noteq> []" "negate bopts = 0"
    | (neg) "columns bopts \<noteq> []" "negate bopts \<noteq> 0" by blast
  then show ?thesis
  proof cases
    case all
    from find_output_indexes_all[OF nz all, of line] assms
    have "lp' = lp\<lparr>num_fields := length ?names, out_indexes := map int [0..<length ?names],
                     idx_range := length ?names\<rparr>" by simp
    moreover have "Suc 0 \<le> length ?names"
      using strsep_tokens_nonempty[of "ifs lp" line] by (cases ?names) auto
    ultimately show ?thesis by auto
  next
    case sel
    from find_output_indexes_select[OF nz sel, of line] assms
    have o: "out_indexes lp' = map (string_index ?names (length ?names)) (columns bopts)"
      and r: "int (idx_range lp') = Max (insert 0 (set (out_indexes lp'))) + 1"
      and k: "ifs lp' = ifs lp \<and> ofs lp' = ofs lp \<and> time_cols lp' = time_cols lp" by auto
    have v: "\<forall>i \<in> set (out_indexes lp'). i = - 1 \<or> (0 \<le> i \<and> i < int (idx_range lp'))"
    proof
      fix i assume i: "i \<in> set (out_indexes lp')"
      then have "i < int (idx_range lp')" using Max_insert0_bound[OF i] r by simp
      moreover have "i = - 1 \<or> 0 \<le> i" using i o string_index_nonneg by auto
      ultimately show "i = - 1 \<or> (0 \<le> i \<and> i < int (idx_range lp'))" by blast
    qed
    have "\<forall>i \<in> set (out_indexes lp'). i < int (length ?names)"
      using o string_index_less by auto
    from Max_insert0_less[OF this pos] r Max_insert0_ge[of "out_indexes lp'"]
    have "1 \<le> idx_range lp' \<and> idx_range lp' \<le> length ?names" by linarith
    with v k show ?thesis by blast
  next
    case neg
    from find_output_indexes_negate[OF nz neg, of line] assms
    have o: "out_indexes lp' = kept_of (columns bopts) 0 ?names"
      and r: "int (idx_range lp') = Max (insert 0 (set (out_indexes lp'))) + 1"
      and k: "ifs lp' = ifs lp \<and> ofs lp' = ofs lp \<and> time_cols lp' = time_cols lp" by auto
    have v: "\<forall>i \<in> set (out_indexes lp'). i = - 1 \<or> (0 \<le> i \<and> i < int (idx_range lp'))"
    proof
      fix i assume i: "i \<in> set (out_indexes lp')"
      then have "i < int (idx_range lp')" using Max_insert0_bound[OF i] r by simp
      moreover have "0 \<le> i" using i o kept_of_0_range by auto
      ultimately show "i = - 1 \<or> (0 \<le> i \<and> i < int (idx_range lp'))" by blast
    qed
    have "\<forall>i \<in> set (out_indexes lp'). i < int (length ?names)"
      using o kept_of_0_range by auto
    from Max_insert0_less[OF this pos] r Max_insert0_ge[of "out_indexes lp'"]
    have "1 \<le> idx_range lp' \<and> idx_range lp' \<le> length ?names" by linarith
    with v k show ?thesis by blast
  qed
qed

lemma strsep_tokens_prefix:
  "d \<notin> set p \<Longrightarrow> strsep_tokens d (p @ d # s) = p # strsep_tokens d s"
  by (induction p) (auto split: list.splits)

section \<open>The range of indexes of the requested columns\<close>

text \<open>
  Claim C6. With a non-empty list of requested columns and without \<open>-n\<close>,
  \<open>find_output_indexes\<close> on a \<open>#fields\<close> line stores for every requested name its
  first-match index among the declared names, or -1; every stored index is below
  \<open>idx_range\<close>; \<open>idx_range\<close> is 1 + the greatest resolved index when some name
  resolves, and 1 when none does; and it depends on the resolved names only:
  any other non-empty request with the same resolved names in the same order, whatever
  unresolved names it holds, gives the same \<open>idx_range\<close>.
\<close>

theorem idx_range_of_requested:
  assumes "columns bopts \<noteq> []" "negate bopts = 0" "ifs lp \<noteq> NUL"
  shows "\<exists>lp'. find_output_indexes line lp bopts = Some lp'
           \<and> out_indexes lp' = map (\<lambda>c. case first_match (strsep_tokens (ifs lp) line) c of
                                           None \<Rightarrow> - 1 | Some k \<Rightarrow> int k) (columns bopts)
           \<and> (\<forall>i \<in> set (out_indexes lp'). i < int (idx_range lp'))
           \<and> (filter (\<lambda>i. i \<noteq> - 1) (out_indexes lp') \<noteq> [] \<longrightarrow>
                 int (idx_range lp') = 1 + Max (set (filter (\<lambda>i. i \<noteq> - 1) (out_indexes lp'))))
           \<and> (filter (\<lambda>i. i \<noteq> - 1) (out_indexes lp') = [] \<longrightarrow> idx_range lp' = 1)
           \<and> (\<forall>cols'. cols' \<noteq> []
                  \<and> filter (\<lambda>c. c \<in> set (strsep_tokens (ifs lp) line)) cols'
                      = filter (\<lambda>c. c \<in> set (strsep_tokens (ifs lp) line)) (columns bopts)
                 \<longrightarrow> (\<exists>lp''. find_output_indexes line lp (bopts\<lparr>columns := cols'\<rparr>) = Some lp''
                             \<and> idx_range lp'' = idx_range lp'))"
proof -
  let ?names = "strsep_tokens (ifs lp) line"
  let ?ix = "string_index ?names (length ?names)"
  from find_output_indexes_select[OF assms(3) assms(1) assms(2), of line] obtain lp' where lp':
    "find_output_indexes line lp bopts = Some lp'"
    "out_indexes lp' = map ?ix (columns bopts)"
    "int (idx_range lp') = Max (insert 0 (set (out_indexes lp'))) + 1"
    by blast
  let ?out = "out_indexes lp'"
  let ?res = "filter (\<lambda>i. i \<noteq> - 1) ?out"
  have o: "?out = map (\<lambda>c. case first_match ?names c of None \<Rightarrow> - 1 | Some k \<Rightarrow> int k) (columns bopts)"
    using lp'(2) by (simp add: string_index_first_match)
  have b: "\<forall>i \<in> set ?out. i < int (idx_range lp')"
    using Max_insert0_bound[of _ ?out] lp'(3) by simp
  have nn: "\<forall>x \<in> set ?res. 0 \<le> x"
    using string_index_nonneg lp'(2) by auto
  have mr: "Max (insert 0 (set ?out)) = Max (insert 0 (set ?res))"
    by (rule Max_insert0_resolved)
  have r1: "?res \<noteq> [] \<longrightarrow> int (idx_range lp') = 1 + Max (set ?res)"
  proof
    assume ne: "?res \<noteq> []"
    have "Max (insert 0 (set ?res)) = Max (set ?res)" by (rule Max_insert0_nonneg[OF ne nn])
    with mr lp'(3) show "int (idx_range lp') = 1 + Max (set ?res)" by simp
  qed
  have r2: "?res = [] \<longrightarrow> idx_range lp' = 1"
  proof
    assume e: "?res = []"
    have "Max (insert 0 (set ?res)) = 0" unfolding e by simp
    with mr lp'(3) show "idx_range lp' = 1" by simp
  qed
  have r3: "\<forall>cols'. cols' \<noteq> []
                  \<and> filter (\<lambda>c. c \<in> set ?names) cols' = filter (\<lambda>c. c \<in> set ?names) (columns bopts)
                 \<longrightarrow> (\<exists>lp''. find_output_indexes line lp (bopts\<lparr>columns := cols'\<rparr>) = Some lp''
                             \<and> idx_range lp'' = idx_range lp')"
  proof (intro allI impI)
    fix cols'
    assume a: "cols' \<noteq> [] \<and> filter (\<lambda>c. c \<in> set ?names) cols' = filter (\<lambda>c. c \<in> set ?names) (columns bopts)"
    have h: "ifs lp \<noteq> NUL" "columns (bopts\<lparr>columns := cols'\<rparr>) \<noteq> []" "negate (bopts\<lparr>columns := cols'\<rparr>) = 0"
      using a assms by simp_all
    from find_output_indexes_select[OF h, of line] obtain lp'' where lp'':
      "find_output_indexes line lp (bopts\<lparr>columns := cols'\<rparr>) = Some lp''"
      "out_indexes lp'' = map ?ix (columns (bopts\<lparr>columns := cols'\<rparr>))"
      "int (idx_range lp'') = Max (insert 0 (set (out_indexes lp''))) + 1"
      by blast
    have "filter (\<lambda>i. i \<noteq> - 1) (out_indexes lp'') = ?res"
      using a lp''(2) lp'(2) by (simp add: resolved_of_columns)
    then have "Max (insert 0 (set (out_indexes lp''))) = Max (insert 0 (set ?out))"
      using Max_insert0_resolved[of "out_indexes lp''"] mr by simp
    with lp''(3) lp'(3) have "idx_range lp'' = idx_range lp'" by simp
    with lp''(1) show "\<exists>lp''. find_output_indexes line lp (bopts\<lparr>columns := cols'\<rparr>) = Some lp''
                             \<and> idx_range lp'' = idx_range lp'"
      by blast
  qed
  show ?thesis
    using lp'(1) o b r1 r2 r3 by blast
qed

text \<open>
  The theorem at the declared names \<open>a\<close>, \<open>b\<close> and the request \<open>b\<close>, \<open>zz\<close>:
  the indexes are 1 and -1, and \<open>idx_range\<close> is 2.
\<close>

theorem idx_range_of_requested_witness:
  "\<exists>lp'. find_output_indexes (''a'' @ [TAB] @ ''b'') (lparams init_state)
            ((init_opts None)\<lparr>columns := [''b'', ''zz'']\<rparr>) = Some lp'
         \<and> out_indexes lp' = [1, - 1] \<and> idx_range lp' = 2"
proof -
  let ?bopts = "(init_opts None)\<lparr>columns := [''b'', ''zz'']\<rparr>"
  have h: "columns ?bopts \<noteq> []" "negate ?bopts = 0" "ifs (lparams init_state) \<noteq> NUL"
    by (simp_all add: init_opts_def init_state_def)
  from idx_range_of_requested[OF h, of "''a'' @ [TAB] @ ''b''"] obtain lp' where lp':
    "find_output_indexes (''a'' @ [TAB] @ ''b'') (lparams init_state) ?bopts = Some lp'"
    "out_indexes lp' = map (\<lambda>c. case first_match (strsep_tokens (ifs (lparams init_state))
                                   (''a'' @ [TAB] @ ''b'')) c of None \<Rightarrow> - 1 | Some k \<Rightarrow> int k)
                          (columns ?bopts)"
    "filter (\<lambda>i. i \<noteq> - 1) (out_indexes lp') \<noteq> [] \<longrightarrow>
       int (idx_range lp') = 1 + Max (set (filter (\<lambda>i. i \<noteq> - 1) (out_indexes lp')))"
    by blast
  have o: "out_indexes lp' = [1, - 1]"
    using lp'(2) by (simp add: init_state_def)
  with lp'(3) have "idx_range lp' = 2" by simp
  with lp'(1) o show ?thesis by blast
qed

section \<open>The requested columns of a data line\<close>

text \<open>
  Claim C1. Let a \<open>#fields\<close> line be processed with a non-empty list of \<open>n\<close> requested
  columns and without \<open>-n\<close>, and let the indexes and \<open>idx_range\<close> it stored be the
  current ones (the separators and the time columns may have changed since). Take a data
  line with at least \<open>idx_range\<close> fields. The process dies in \<open>output_indexes\<close>
  exactly when the time conversion is on and fails on the field of a requested, declared
  name whose column is a time column. Otherwise the line is written as \<open>n\<close> fields
  joined by the output separator and a newline; field \<open>i\<close> is empty when the
  \<open>i\<close>-th requested name is not declared, and otherwise it is the field of the line at
  the first position where that name is declared (converted by the time conversion when
  that is on and the column is a time column). A name requested twice is looked up twice.
\<close>

theorem requested_columns_output:
  assumes "columns bopts \<noteq> []" "negate bopts = 0"
      and "find_output_indexes fline lp0 bopts = Some lp1"
      and "out_indexes lp = out_indexes lp1" "idx_range lp = idx_range lp1"
      and "idx_range lp \<le> length (strsep_tokens (ifs lp) dline)"
  shows "(output_indexes tc 0 dline lp bopts = None) =
           (\<exists>c \<in> set (columns bopts). \<exists>k.
               first_match (strsep_tokens (ifs lp0) fline) c = Some k
             \<and> timeconv bopts \<noteq> 0 \<and> time_cols lp ! k \<noteq> 0
             \<and> tc (timeconv bopts) (timefmt bopts) (strsep_tokens (ifs lp) dline ! k) = None)
       \<and> (\<forall>so se. output_indexes tc 0 dline lp bopts = Some (so, se) \<longrightarrow>
            (\<exists>fs. so = join (cstr [ofs lp]) fs @ [NL]
               \<and> length fs = length (columns bopts)
               \<and> (\<forall>i < length fs.
                     case first_match (strsep_tokens (ifs lp0) fline) (columns bopts ! i) of
                       None \<Rightarrow> fs ! i = []
                     | Some k \<Rightarrow>
                         if timeconv bopts \<noteq> 0 \<and> time_cols lp ! k \<noteq> 0
                         then map_option fst (tc (timeconv bopts) (timefmt bopts)
                                                 (strsep_tokens (ifs lp) dline ! k)) = Some (fs ! i)
                         else fs ! i = strsep_tokens (ifs lp) dline ! k)))"
proof -
  let ?names = "strsep_tokens (ifs lp0) fline"
  let ?toks = "strsep_tokens (ifs lp) dline"
  let ?tcv = "\<lambda>k. tc (timeconv bopts) (timefmt bopts) (?toks ! k)"
  let ?isT = "\<lambda>k. timeconv bopts \<noteq> 0 \<and> time_cols lp ! k \<noteq> 0"
  let ?ix = "\<lambda>c. case first_match ?names c of None \<Rightarrow> - 1 | Some k \<Rightarrow> int k"
  let ?F = "\<lambda>i. if i = - 1 then []
                 else if ?isT (nat i) then (case ?tcv (nat i) of Some (t, e) \<Rightarrow> t | None \<Rightarrow> [])
                 else ?toks ! nat i"
  let ?crash = "\<exists>i \<in> set (out_indexes lp). i \<noteq> - 1 \<and> timeconv bopts \<noteq> 0 \<and> time_cols lp ! nat i \<noteq> 0
                  \<and> ?tcv (nat i) = None"
  have nz: "ifs lp0 \<noteq> NUL" using assms(3) by (auto simp: find_output_indexes_def split: if_splits)
  from find_output_indexes_select[OF nz assms(1,2), of fline] assms(3,4)
  have o: "out_indexes lp = map ?ix (columns bopts)"
    by (auto simp: string_index_first_match)
  from find_output_indexes_valid[OF assms(3)] assms(4,5)
  have v: "\<forall>i \<in> set (out_indexes lp). i = - 1 \<or> (0 \<le> i \<and> i < int (idx_range lp))" by simp
  note e = output_indexes_data_plain[OF assms(6) v, of tc bopts]
  have cr: "?crash = (\<exists>c \<in> set (columns bopts). \<exists>k. first_match ?names c = Some k \<and> ?isT k \<and> ?tcv k = None)"
  proof
    assume ?crash
    then obtain i where i: "i \<in> set (out_indexes lp)" "i \<noteq> - 1" "?isT (nat i)" "?tcv (nat i) = None"
      by blast
    from i(1) o obtain c where c: "c \<in> set (columns bopts)" "i = ?ix c" by auto
    with i(2) obtain k where k: "first_match ?names c = Some k" "i = int k"
      by (auto split: option.splits)
    with i c show "\<exists>c \<in> set (columns bopts). \<exists>k. first_match ?names c = Some k \<and> ?isT k \<and> ?tcv k = None"
      by auto
  next
    assume "\<exists>c \<in> set (columns bopts). \<exists>k. first_match ?names c = Some k \<and> ?isT k \<and> ?tcv k = None"
    then obtain c k where c: "c \<in> set (columns bopts)" "first_match ?names c = Some k" "?isT k" "?tcv k = None"
      by blast
    then have "int k \<in> set (out_indexes lp)" using o by force
    with c show ?crash by (intro bexI[of _ "int k"]) auto
  qed
  have c1: "(output_indexes tc 0 dline lp bopts = None) =
           (\<exists>c \<in> set (columns bopts). \<exists>k. first_match ?names c = Some k \<and> ?isT k \<and> ?tcv k = None)"
  proof (cases ?crash)
    case True
    with e have "output_indexes tc 0 dline lp bopts = None" by (simp only: if_True)
    with True cr show ?thesis by blast
  next
    case False
    with e have "output_indexes tc 0 dline lp bopts \<noteq> None" by (simp only: if_False) simp
    with False cr show ?thesis by blast
  qed
  have c2: "\<forall>so se. output_indexes tc 0 dline lp bopts = Some (so, se) \<longrightarrow>
            (\<exists>fs. so = join (cstr [ofs lp]) fs @ [NL]
               \<and> length fs = length (columns bopts)
               \<and> (\<forall>i < length fs.
                     case first_match ?names (columns bopts ! i) of
                       None \<Rightarrow> fs ! i = []
                     | Some k \<Rightarrow>
                         if ?isT k then map_option fst (?tcv k) = Some (fs ! i)
                         else fs ! i = ?toks ! k))"
  proof (intro allI impI)
    fix so se assume s: "output_indexes tc 0 dline lp bopts = Some (so, se)"
    have nc: "\<not> ?crash"
    proof
      assume ?crash
      with e have "output_indexes tc 0 dline lp bopts = None" by (simp only: if_True)
      with s show False by simp
    qed
    with e s have so: "so = join (cstr [ofs lp]) (map ?F (out_indexes lp)) @ [NL]"
      by (simp only: if_False) simp
    let ?fs = "map ?F (out_indexes lp)"
    have l: "length ?fs = length (columns bopts)" using o by simp
    have f: "\<forall>i < length ?fs.
                     case first_match ?names (columns bopts ! i) of
                       None \<Rightarrow> ?fs ! i = []
                     | Some k \<Rightarrow>
                         if ?isT k then map_option fst (?tcv k) = Some (?fs ! i)
                         else ?fs ! i = ?toks ! k"
    proof (intro allI impI)
      fix i assume "i < length ?fs"
      then have i: "i < length (columns bopts)" using l by simp
      then have fi: "?fs ! i = ?F (?ix (columns bopts ! i))" using o by simp
      show "case first_match ?names (columns bopts ! i) of
                       None \<Rightarrow> ?fs ! i = []
                     | Some k \<Rightarrow>
                         if ?isT k then map_option fst (?tcv k) = Some (?fs ! i)
                         else ?fs ! i = ?toks ! k"
      proof (cases "first_match ?names (columns bopts ! i)")
        case None
        with fi show ?thesis by simp
      next
        case (Some k)
        show ?thesis
        proof (cases "?isT k")
          case False
          with fi Some show ?thesis by auto
        next
          case True
          have "out_indexes lp ! i = int k" using o i Some by simp
          moreover have "i < length (out_indexes lp)" using o i by simp
          ultimately have "int k \<in> set (out_indexes lp)" by (metis nth_mem)
          with nc True obtain t e' where t: "?tcv k = Some (t, e')" by (cases "?tcv k") auto
          with fi Some True show ?thesis by simp
        qed
      qed
    qed
    from so l f show "\<exists>fs. so = join (cstr [ofs lp]) fs @ [NL]
               \<and> length fs = length (columns bopts)
               \<and> (\<forall>i < length fs.
                     case first_match ?names (columns bopts ! i) of
                       None \<Rightarrow> fs ! i = []
                     | Some k \<Rightarrow>
                         if ?isT k then map_option fst (?tcv k) = Some (fs ! i)
                         else fs ! i = ?toks ! k)"
      by blast
  qed
  from c1 c2 show ?thesis by blast
qed

text \<open>
  The theorem at the declared names \<open>a\<close>, \<open>b\<close>, \<open>c\<close>, the request \<open>c\<close>, \<open>zz\<close>,
  \<open>a\<close>, \<open>c\<close>, the time conversion on with column 0 a time column, a conversion that
  fails on every field but 0, and the data line of 0, 2 and 3: the line is written, and
  its fields are 3, the empty one, the converted time and 3.
\<close>

theorem requested_columns_output_witness:
  "\<exists>lp1 so se fs.
      find_output_indexes (''a'' @ [TAB] @ ''b'' @ [TAB] @ ''c'') (lparams init_state)
        ((init_opts None)\<lparr>timeconv := 2, columns := [''c'', ''zz'', ''a'', ''c'']\<rparr>) = Some lp1
    \<and> output_indexes (\<lambda>m f x. if x = ''0'' then Some (''EPOCH'', []) else None) 0
          (''0'' @ [TAB] @ ''2'' @ [TAB] @ ''3'') (lp1\<lparr>time_cols := [1, 0, 0]\<rparr>)
          ((init_opts None)\<lparr>timeconv := 2, columns := [''c'', ''zz'', ''a'', ''c'']\<rparr>)
        = Some (so, se)
    \<and> so = join [TAB] fs @ [NL]
    \<and> length fs = 4 \<and> fs ! 0 = ''3'' \<and> fs ! 1 = [] \<and> fs ! 2 = ''EPOCH'' \<and> fs ! 3 = ''3''"
proof -
  define bopts where "bopts = (init_opts None)\<lparr>timeconv := 2, columns := [''c'', ''zz'', ''a'', ''c'']\<rparr>"
  define tc :: tconv where "tc = (\<lambda>m f x. if x = ''0'' then Some (''EPOCH'', []) else None)"
  define fline where "fline = ''a'' @ [TAB] @ ''b'' @ [TAB] @ ''c''"
  define dline where "dline = ''0'' @ [TAB] @ ''2'' @ [TAB] @ ''3''"
  define lp1 where "lp1 = (lparams init_state)\<lparr>num_fields := 3, out_indexes := [2, - 1, 0, 2], idx_range := 3\<rparr>"
  define lp where "lp = lp1\<lparr>time_cols := [1, 0, 0]\<rparr>"
  have fo: "find_output_indexes fline (lparams init_state) bopts = Some lp1"
    by (simp add: find_output_indexes_def init_state_def init_opts_def string_index_def Let_def
          bopts_def fline_def lp1_def)
  have nm: "strsep_tokens (ifs (lparams init_state)) fline = [''a'', ''b'', ''c'']"
    by (simp add: init_state_def fline_def)
  have tk: "strsep_tokens (ifs lp) dline = [''0'', ''2'', ''3'']"
    by (simp add: init_state_def dline_def lp_def lp1_def)
  have h: "columns bopts \<noteq> []" "negate bopts = 0"
          "out_indexes lp = out_indexes lp1" "idx_range lp = idx_range lp1"
          "idx_range lp \<le> length (strsep_tokens (ifs lp) dline)"
    by (simp_all add: tk) (simp_all add: bopts_def init_opts_def lp_def lp1_def)
  note t = requested_columns_output[OF h(1,2) fo h(3,4,5), of tc]
  have cols: "columns bopts = [''c'', ''zz'', ''a'', ''c'']" "timeconv bopts = 2"
    by (simp_all add: bopts_def)
  have tcl: "time_cols lp = [1, 0, 0]" by (simp add: lp_def)
  have "output_indexes tc 0 dline lp bopts \<noteq> None"
    using t[THEN conjunct1] by (simp add: nm tk cols tcl tc_def)
  then obtain so se where s: "output_indexes tc 0 dline lp bopts = Some (so, se)" by auto
  from t[THEN conjunct2, THEN spec, THEN spec, THEN mp, OF s] obtain fs where
    fs: "so = join (cstr [ofs lp]) fs @ [NL]" "length fs = length (columns bopts)"
        "\<forall>i < length fs.
            case first_match (strsep_tokens (ifs (lparams init_state)) fline) (columns bopts ! i) of
              None \<Rightarrow> fs ! i = []
            | Some k \<Rightarrow>
                if timeconv bopts \<noteq> 0 \<and> time_cols lp ! k \<noteq> 0
                then map_option fst (tc (timeconv bopts) (timefmt bopts)
                                        (strsep_tokens (ifs lp) dline ! k)) = Some (fs ! i)
                else fs ! i = strsep_tokens (ifs lp) dline ! k"
    by blast
  have l: "length fs = 4" using fs(2) by (simp add: cols)
  have f0: "fs ! 0 = ''3''" using fs(3)[THEN spec, of 0] l by (simp add: nm tk cols tcl)
  have f1: "fs ! 1 = []" using fs(3)[THEN spec, of 1] l by (simp add: nm tk cols tcl)
  have f2: "fs ! 2 = ''EPOCH''" using fs(3)[THEN spec, of 2] l by (simp add: nm tk cols tcl tc_def)
  have f3: "fs ! 3 = ''3''" using fs(3)[THEN spec, of 3] l by (simp add: nm tk cols tcl)
  have sep: "cstr [ofs lp] = [TAB]" by (simp add: cstr_def init_state_def lp_def lp1_def)
  have "find_output_indexes fline (lparams init_state) bopts = Some lp1
      \<and> output_indexes tc 0 dline (lp1\<lparr>time_cols := [1, 0, 0]\<rparr>) bopts = Some (so, se)
      \<and> so = join [TAB] fs @ [NL]
      \<and> length fs = 4 \<and> fs ! 0 = ''3'' \<and> fs ! 1 = [] \<and> fs ! 2 = ''EPOCH'' \<and> fs ! 3 = ''3''"
    using fo s fs(1)[unfolded sep] l f0 f1 f2 f3 unfolding lp_def by (intro conjI)
  then show ?thesis unfolding bopts_def tc_def fline_def dline_def by (intro exI)
qed

section \<open>The columns kept with \<open>-n\<close>\<close>

text \<open>
  Claim C2. With \<open>-n\<close> and the excluded names \<open>E\<close>, \<open>find_output_indexes\<close> on a
  \<open>#fields\<close> line stores, in the declared order, exactly the positions of the declared
  names that are not in \<open>E\<close>; the names at the stored positions are the declared names
  with the members of \<open>E\<close> removed; \<open>idx_range\<close> is 1 + the greatest kept position
  when a position is kept; the \<open>#fields\<close> line itself is written as its tag followed by
  the declared names without the members of \<open>E\<close>, and a data line that is not skipped as
  its fields at the kept positions, in order.
\<close>

theorem negate_complement:
  assumes "negate bopts \<noteq> 0" "ifs lp \<noteq> NUL"
  shows "\<exists>lp'. find_output_indexes line lp bopts = Some lp'
           \<and> out_indexes lp' = map int (filter (\<lambda>i. strsep_tokens (ifs lp) line ! i \<notin> set (columns bopts))
                                           [0..<length (strsep_tokens (ifs lp) line)])
           \<and> map (\<lambda>i. strsep_tokens (ifs lp) line ! nat i) (out_indexes lp')
               = filter (\<lambda>n. n \<notin> set (columns bopts)) (strsep_tokens (ifs lp) line)
           \<and> (out_indexes lp' \<noteq> [] \<longrightarrow> int (idx_range lp') = 1 + Max (set (out_indexes lp')))
           \<and> (ifs lp \<notin> set ''#fields'' \<longrightarrow>
                 output_indexes tc 1 (''#fields'' @ ifs lp # line) lp' bopts
                   = Some (join (cstr [ofs lp'])
                             (''#fields'' # filter (\<lambda>n. n \<notin> set (columns bopts))
                                                (strsep_tokens (ifs lp) line))
                           @ [NL], []))
           \<and> (\<forall>dline. idx_range lp' \<le> length (strsep_tokens (ifs lp') dline) \<and> timeconv bopts = 0 \<longrightarrow>
                 output_indexes tc 0 dline lp' bopts
                   = Some (join (cstr [ofs lp'])
                             (map (\<lambda>i. strsep_tokens (ifs lp') dline ! nat i) (out_indexes lp'))
                           @ [NL], []))"
proof -
  let ?names = "strsep_tokens (ifs lp) line"
  let ?E = "columns bopts"
  have "\<exists>lp'. find_output_indexes line lp bopts = Some lp'
          \<and> out_indexes lp' = kept_of ?E 0 ?names
          \<and> int (idx_range lp') = Max (insert 0 (set (out_indexes lp'))) + 1"
  proof (cases "?E = []")
    case True
    let ?lp' = "lp\<lparr>num_fields := length ?names, out_indexes := map int [0..<length ?names],
                   idx_range := length ?names\<rparr>"
    have f: "find_output_indexes line lp bopts = Some ?lp'"
      by (rule find_output_indexes_all[OF assms(2) True])
    have k: "out_indexes ?lp' = kept_of ?E 0 ?names" using True by (simp add: kept_of_0)
    have "length ?names \<noteq> 0" using strsep_tokens_nonempty[of "ifs lp" line] by simp
    then obtain n where n: "length ?names = Suc n" by (cases "length ?names") auto
    have "Max (insert 0 (set (map int [0..<length ?names]))) = int n"
      unfolding n by (intro Max_eqI) auto
    then have "int (idx_range ?lp') = Max (insert 0 (set (out_indexes ?lp'))) + 1"
      using n by (simp del: Max_insert set_map upt_Suc)
    with f k show ?thesis by blast
  next
    case False
    from find_output_indexes_negate[OF assms(2) False assms(1), of line] show ?thesis by blast
  qed
  then obtain lp' where lp':
    "find_output_indexes line lp bopts = Some lp'"
    "out_indexes lp' = kept_of ?E 0 ?names"
    "int (idx_range lp') = Max (insert 0 (set (out_indexes lp'))) + 1" by blast
  from find_output_indexes_valid[OF lp'(1)]
  have v: "\<forall>i \<in> set (out_indexes lp'). i = - 1 \<or> (0 \<le> i \<and> i < int (idx_range lp'))"
    and le: "idx_range lp' \<le> length ?names" and sep: "ifs lp' = ifs lp" by auto
  have nn: "\<forall>i \<in> set (out_indexes lp'). 0 \<le> i" using lp'(2) kept_of_0_range by auto
  have c1: "out_indexes lp' = map int (filter (\<lambda>i. ?names ! i \<notin> set ?E) [0..<length ?names])"
    using lp'(2) by (simp add: kept_of_0)
  have c2: "map (\<lambda>i. ?names ! nat i) (out_indexes lp') = filter (\<lambda>n. n \<notin> set ?E) ?names"
    using lp'(2) by (simp add: kept_of_names)
  have c3: "out_indexes lp' \<noteq> [] \<longrightarrow> int (idx_range lp') = 1 + Max (set (out_indexes lp'))"
    using lp'(3) Max_insert0_nonneg[OF _ nn] by auto
  have c4: "ifs lp \<notin> set ''#fields'' \<longrightarrow>
                 output_indexes tc 1 (''#fields'' @ ifs lp # line) lp' bopts
                   = Some (join (cstr [ofs lp']) (''#fields'' # filter (\<lambda>n. n \<notin> set ?E) ?names)
                           @ [NL], [])"
  proof
    assume ns: "ifs lp \<notin> set ''#fields''"
    define hline where "hline = ''#fields'' @ ifs lp # line"
    have t: "strsep_tokens (ifs lp') hline = ''#fields'' # ?names"
      unfolding hline_def sep by (rule strsep_tokens_prefix[OF ns])
    have len: "Suc (idx_range lp') \<le> length (strsep_tokens (ifs lp') hline)"
      unfolding t using le by simp
    have m: "map (\<lambda>i. if i = - 1 then []
                   else if timeconv bopts \<noteq> 0 \<and> hd (strsep_tokens (ifs lp') hline) = ''#types''
                           \<and> strsep_tokens (ifs lp') hline ! (nat i + 1) = ''time''
                   then ''string'' else strsep_tokens (ifs lp') hline ! (nat i + 1)) (out_indexes lp')
          = map (\<lambda>i. ?names ! nat i) (out_indexes lp')"
      unfolding t using nn by (intro map_cong[OF refl]) auto
    have "output_indexes tc 1 hline lp' bopts
            = Some (join (cstr [ofs lp'])
                      (hd (strsep_tokens (ifs lp') hline) # map (\<lambda>i. ?names ! nat i) (out_indexes lp'))
                    @ [NL], [])"
      using output_indexes_hdr_plain[OF len v, of tc bopts] by (simp only: m)
    also have "\<dots> = Some (join (cstr [ofs lp']) (''#fields'' # filter (\<lambda>n. n \<notin> set ?E) ?names) @ [NL], [])"
      by (simp only: t c2 list.sel)
    finally show "output_indexes tc 1 (''#fields'' @ ifs lp # line) lp' bopts
                   = Some (join (cstr [ofs lp']) (''#fields'' # filter (\<lambda>n. n \<notin> set ?E) ?names)
                           @ [NL], [])"
      unfolding hline_def .
  qed
  have c5: "\<forall>dline. idx_range lp' \<le> length (strsep_tokens (ifs lp') dline) \<and> timeconv bopts = 0 \<longrightarrow>
                 output_indexes tc 0 dline lp' bopts
                   = Some (join (cstr [ofs lp'])
                             (map (\<lambda>i. strsep_tokens (ifs lp') dline ! nat i) (out_indexes lp'))
                           @ [NL], [])"
  proof (intro allI impI)
    fix dline
    assume a: "idx_range lp' \<le> length (strsep_tokens (ifs lp') dline) \<and> timeconv bopts = 0"
    then have z: "timeconv bopts = 0" by blast
    have m1: "map (\<lambda>i. if i = - 1 then []
                        else if timeconv bopts \<noteq> 0 \<and> time_cols lp' ! nat i \<noteq> 0
                        then (case tc (timeconv bopts) (timefmt bopts)
                                      (strsep_tokens (ifs lp') dline ! nat i) of
                                Some (t, e) \<Rightarrow> t | None \<Rightarrow> [])
                        else strsep_tokens (ifs lp') dline ! nat i) (out_indexes lp')
          = map (\<lambda>i. strsep_tokens (ifs lp') dline ! nat i) (out_indexes lp')"
      using nn z by (intro map_cong[OF refl]) auto
    have m2: "concat (map (\<lambda>i. if i \<noteq> - 1 \<and> timeconv bopts \<noteq> 0 \<and> time_cols lp' ! nat i \<noteq> 0
                            then (case tc (timeconv bopts) (timefmt bopts)
                                          (strsep_tokens (ifs lp') dline ! nat i) of
                                    Some (t, e) \<Rightarrow> e | None \<Rightarrow> [])
                            else []) (out_indexes lp')) = []"
      using z by simp
    have nc: "\<not> (\<exists>i \<in> set (out_indexes lp').
                 i \<noteq> - 1 \<and> timeconv bopts \<noteq> 0 \<and> time_cols lp' ! nat i \<noteq> 0
                 \<and> tc (timeconv bopts) (timefmt bopts) (strsep_tokens (ifs lp') dline ! nat i) = None)"
      using z by simp
    show "output_indexes tc 0 dline lp' bopts
                   = Some (join (cstr [ofs lp'])
                             (map (\<lambda>i. strsep_tokens (ifs lp') dline ! nat i) (out_indexes lp'))
                           @ [NL], [])"
      using output_indexes_data_plain[OF conjunct1[OF a] v, of tc bopts] nc
      by (simp only: if_False m1 m2)
  qed
  from lp'(1) c1 c2 c3 c4 c5 show ?thesis by blast
qed

text \<open>
  The theorem at the declared names \<open>a\<close>, \<open>b\<close>, \<open>c\<close> and the excluded name
  \<open>b\<close>: positions 0 and 2 are kept, \<open>idx_range\<close> is 3, and the \<open>#fields\<close> line is
  written with the names \<open>a\<close> and \<open>c\<close>.
\<close>

theorem negate_complement_witness:
  "\<exists>lp'. find_output_indexes (''a'' @ [TAB] @ ''b'' @ [TAB] @ ''c'') (lparams init_state)
            ((init_opts None)\<lparr>negate := 1, columns := [''b'']\<rparr>) = Some lp'
         \<and> out_indexes lp' = [0, 2] \<and> idx_range lp' = 3
         \<and> output_indexes (\<lambda>m f x. None) 1
               (''#fields'' @ TAB # ''a'' @ [TAB] @ ''b'' @ [TAB] @ ''c'') lp'
               ((init_opts None)\<lparr>negate := 1, columns := [''b'']\<rparr>)
             = Some (join [TAB] [''#fields'', ''a'', ''c''] @ [NL], [])"
proof -
  define bopts where "bopts = (init_opts None)\<lparr>negate := 1, columns := [''b'']\<rparr>"
  define lp where "lp = lparams init_state"
  define line where "line = ''a'' @ [TAB] @ ''b'' @ [TAB] @ ''c''"
  define lp1 where "lp1 = lp\<lparr>num_fields := 3, out_indexes := [0, 2], idx_range := 3\<rparr>"
  have fo: "find_output_indexes line lp bopts = Some lp1"
    by (simp add: find_output_indexes_def init_state_def init_opts_def string_index_def Let_def
          bopts_def lp_def line_def lp1_def)
  have h: "negate bopts \<noteq> 0" "ifs lp \<noteq> NUL" "ifs lp \<notin> set ''#fields''"
    by (simp_all add: init_opts_def init_state_def bopts_def lp_def)
  from negate_complement[OF h(1,2), of line "\<lambda>m f x. None"] obtain lp' where
    a: "find_output_indexes line lp bopts = Some lp'" and
    b: "ifs lp \<notin> set ''#fields'' \<longrightarrow>
          output_indexes (\<lambda>m f x. None) 1 (''#fields'' @ ifs lp # line) lp' bopts
            = Some (join (cstr [ofs lp'])
                      (''#fields'' # filter (\<lambda>n. n \<notin> set (columns bopts)) (strsep_tokens (ifs lp) line))
                    @ [NL], [])"
    by blast
  have eq: "lp' = lp1" using a fo by simp
  have s: "cstr [ofs lp1] = [TAB]" "ifs lp = TAB" by (simp_all add: cstr_def init_state_def lp1_def lp_def)
  have f: "filter (\<lambda>n. n \<notin> set (columns bopts)) (strsep_tokens TAB line) = [''a'', ''c'']"
    by (simp add: init_opts_def bopts_def line_def)
  from b h(3) have "output_indexes (\<lambda>m f x. None) 1 (''#fields'' @ ifs lp # line) lp' bopts
            = Some (join (cstr [ofs lp'])
                      (''#fields'' # filter (\<lambda>n. n \<notin> set (columns bopts)) (strsep_tokens (ifs lp) line))
                    @ [NL], [])" by (rule mp)
  then have "output_indexes (\<lambda>m f x. None) 1 (''#fields'' @ TAB # line) lp1 bopts
            = Some (join [TAB] [''#fields'', ''a'', ''c''] @ [NL], [])"
    unfolding eq s f .
  moreover have "out_indexes lp1 = [0, 2]" "idx_range lp1 = 3" by (simp_all add: lp1_def)
  ultimately have "\<exists>lp'. find_output_indexes line lp bopts = Some lp'
         \<and> out_indexes lp' = [0, 2] \<and> idx_range lp' = 3
         \<and> output_indexes (\<lambda>m f x. None) 1 (''#fields'' @ TAB # line) lp' bopts
             = Some (join [TAB] [''#fields'', ''a'', ''c''] @ [NL], [])"
    using fo by (intro exI[of _ lp1] conjI)
  then show ?thesis unfolding bopts_def lp_def line_def .
qed

section \<open>The type of a time column in the \<open>#types\<close> line\<close>

text \<open>
  Claim C9, as the code has it. Let the time conversion be on and the stored indexes be
  -1 or below \<open>idx_range\<close> (as \<open>find_output_indexes\<close> leaves them). A header line
  with enough fields whose first field, under the current input separator, is exactly
  \<open>#types\<close> is written as the tag, unchanged, followed by one field per output column:
  \<open>string\<close> where the declared type is \<open>time\<close>, the declared type unchanged
  otherwise. A header line with any other first field that goes through
  \<open>output_indexes\<close> (a \<open>#fields\<close> line, or a line that begins with \<open>#types\<close> and
  has a longer first field) is written with its fields unchanged; a data line that is
  written has each field either converted as a time or unchanged; and any other header
  line that is shown is echoed as it is.
\<close>

theorem types_header_rewrite:
  assumes "timeconv bopts \<noteq> 0"
      and "\<forall>i \<in> set (out_indexes lp). i = - 1 \<or> (0 \<le> i \<and> i < int (idx_range lp))"
  shows "(Suc (idx_range lp) \<le> length (strsep_tokens (ifs lp) line)
            \<and> hd (strsep_tokens (ifs lp) line) = ''#types'' \<longrightarrow>
          output_indexes tc 1 line lp bopts
            = Some (join (cstr [ofs lp])
                      (''#types'' #
                       map (\<lambda>i. if i = - 1 then []
                                 else if strsep_tokens (ifs lp) line ! (nat i + 1) = ''time''
                                 then ''string''
                                 else strsep_tokens (ifs lp) line ! (nat i + 1))
                           (out_indexes lp)) @ [NL], []))
       \<and> (Suc (idx_range lp) \<le> length (strsep_tokens (ifs lp) line)
            \<and> hd (strsep_tokens (ifs lp) line) \<noteq> ''#types'' \<longrightarrow>
          output_indexes tc 1 line lp bopts
            = Some (join (cstr [ofs lp])
                      (hd (strsep_tokens (ifs lp) line) #
                       map (\<lambda>i. if i = - 1 then [] else strsep_tokens (ifs lp) line ! (nat i + 1))
                           (out_indexes lp)) @ [NL], []))
       \<and> (idx_range lp \<le> length (strsep_tokens (ifs lp) line) \<longrightarrow>
            (\<forall>so se. output_indexes tc 0 line lp bopts = Some (so, se) \<longrightarrow>
               so = join (cstr [ofs lp])
                      (map (\<lambda>i. if i = - 1 then []
                                 else if time_cols lp ! nat i \<noteq> 0
                                 then (case tc (timeconv bopts) (timefmt bopts)
                                               (strsep_tokens (ifs lp) line ! nat i) of
                                         Some (t, e) \<Rightarrow> t | None \<Rightarrow> [])
                                 else strsep_tokens (ifs lp) line ! nat i)
                           (out_indexes lp)) @ [NL]))
       \<and> (\<not> strncmp0 line ''#fields'' 7 \<and> \<not> strncmp0 line ''#types'' 6
            \<and> headers_seen st \<le> showhdr bopts \<longrightarrow>
          show_header tc bopts st line = Continue (st\<lparr>stdout := stdout st @ line @ [NL]\<rparr>))"
proof (intro conjI impI allI)
  let ?toks = "strsep_tokens (ifs lp) line"
  assume a: "Suc (idx_range lp) \<le> length ?toks \<and> hd ?toks = ''#types''"
  then have l: "Suc (idx_range lp) \<le> length ?toks" and h: "hd ?toks = ''#types''" by blast+
  have "(\<lambda>i. if i = - 1 then []
             else if timeconv bopts \<noteq> 0 \<and> hd ?toks = ''#types'' \<and> ?toks ! (nat i + 1) = ''time''
             then ''string'' else ?toks ! (nat i + 1))
        = (\<lambda>i. if i = - 1 then []
                else if ?toks ! (nat i + 1) = ''time'' then ''string'' else ?toks ! (nat i + 1))"
    using assms(1) h by auto
  with output_indexes_hdr_plain[OF l assms(2), of tc bopts]
  show "output_indexes tc 1 line lp bopts
            = Some (join (cstr [ofs lp])
                      (''#types'' #
                       map (\<lambda>i. if i = - 1 then []
                                 else if ?toks ! (nat i + 1) = ''time'' then ''string''
                                 else ?toks ! (nat i + 1))
                           (out_indexes lp)) @ [NL], [])"
    by (simp only: h)
next
  let ?toks = "strsep_tokens (ifs lp) line"
  assume a: "Suc (idx_range lp) \<le> length ?toks \<and> hd ?toks \<noteq> ''#types''"
  then have l: "Suc (idx_range lp) \<le> length ?toks" and h: "hd ?toks \<noteq> ''#types''" by blast+
  have "(\<lambda>i. if i = - 1 then []
             else if timeconv bopts \<noteq> 0 \<and> hd ?toks = ''#types'' \<and> ?toks ! (nat i + 1) = ''time''
             then ''string'' else ?toks ! (nat i + 1))
        = (\<lambda>i. if i = - 1 then [] else ?toks ! (nat i + 1))"
    using h by auto
  with output_indexes_hdr_plain[OF l assms(2), of tc bopts]
  show "output_indexes tc 1 line lp bopts
            = Some (join (cstr [ofs lp])
                      (hd ?toks # map (\<lambda>i. if i = - 1 then [] else ?toks ! (nat i + 1)) (out_indexes lp))
                    @ [NL], [])"
    by (simp only:)
next
  let ?toks = "strsep_tokens (ifs lp) line"
  fix so se
  assume a: "idx_range lp \<le> length ?toks"
     and s: "output_indexes tc 0 line lp bopts = Some (so, se)"
  have m: "(\<lambda>i. if i = - 1 then []
             else if timeconv bopts \<noteq> 0 \<and> time_cols lp ! nat i \<noteq> 0
             then (case tc (timeconv bopts) (timefmt bopts) (?toks ! nat i) of
                     Some (t, e) \<Rightarrow> t | None \<Rightarrow> [])
             else ?toks ! nat i)
        = (\<lambda>i. if i = - 1 then []
                else if time_cols lp ! nat i \<noteq> 0
                then (case tc (timeconv bopts) (timefmt bopts) (?toks ! nat i) of
                        Some (t, e) \<Rightarrow> t | None \<Rightarrow> [])
                else ?toks ! nat i)"
    using assms(1) by auto
  note e = output_indexes_data_plain[OF a assms(2), of tc bopts]
  show "so = join (cstr [ofs lp])
                      (map (\<lambda>i. if i = - 1 then []
                                 else if time_cols lp ! nat i \<noteq> 0
                                 then (case tc (timeconv bopts) (timefmt bopts) (?toks ! nat i) of
                                         Some (t, e) \<Rightarrow> t | None \<Rightarrow> [])
                                 else ?toks ! nat i)
                           (out_indexes lp)) @ [NL]"
    using e s unfolding m by (auto split: if_splits)
next
  assume "\<not> strncmp0 line ''#fields'' 7 \<and> \<not> strncmp0 line ''#types'' 6
            \<and> headers_seen st \<le> showhdr bopts"
  then show "show_header tc bopts st line = Continue (st\<lparr>stdout := stdout st @ line @ [NL]\<rparr>)"
    by (simp add: show_header_def)
qed

text \<open>
  The theorem at a \<open>#types\<close> line with the types \<open>time\<close> and \<open>addr\<close>, the columns 0,
  unresolved and 1, and a comma as output separator; and at a data line whose second
  field reads \<open>time\<close>, of which column 0 is a time column.
\<close>

theorem types_header_rewrite_witness:
  "output_indexes (\<lambda>m f x. if x = ''0'' then Some (''T'', []) else None) 1
      (''#types'' @ [TAB] @ ''time'' @ [TAB] @ ''addr'')
      \<lparr>out_indexes = [0, - 1, 1], idx_range = 2, time_cols = [1, 0], num_fields = 2,
       ifs = TAB, ofs = CHR '',''\<rparr>
      ((init_opts None)\<lparr>timeconv := 1\<rparr>)
     = Some (''#types,string,,addr'' @ [NL], [])
   \<and> (\<exists>se. output_indexes (\<lambda>m f x. if x = ''0'' then Some (''T'', []) else None) 0
         (''0'' @ [TAB] @ ''time'')
         \<lparr>out_indexes = [0, - 1, 1], idx_range = 2, time_cols = [1, 0], num_fields = 2,
          ifs = TAB, ofs = CHR '',''\<rparr>
         ((init_opts None)\<lparr>timeconv := 1\<rparr>)
     = Some (''T,,time'' @ [NL], se))"
proof -
  define tc :: tconv where "tc = (\<lambda>m f x. if x = ''0'' then Some (''T'', []) else None)"
  define lp where "lp = \<lparr>out_indexes = [0, - 1, 1], idx_range = 2, time_cols = [1, 0], num_fields = 2,
          ifs = TAB, ofs = CHR '',''\<rparr>"
  define bopts where "bopts = (init_opts None)\<lparr>timeconv := 1\<rparr>"
  define hl where "hl = ''#types'' @ [TAB] @ ''time'' @ [TAB] @ ''addr''"
  define dl where "dl = ''0'' @ [TAB] @ ''time''"
  have h: "timeconv bopts \<noteq> 0"
          "\<forall>i \<in> set (out_indexes lp). i = - 1 \<or> (0 \<le> i \<and> i < int (idx_range lp))"
    by (simp_all add: lp_def bopts_def)
  have t: "strsep_tokens (ifs lp) hl = [''#types'', ''time'', ''addr'']"
          "strsep_tokens (ifs lp) dl = [''0'', ''time'']"
    by (simp_all add: lp_def hl_def dl_def)
  have c: "cstr [ofs lp] = '',''" by (simp add: cstr_def lp_def)
  have o: "out_indexes lp = [0, - 1, 1]" "idx_range lp = 2" "time_cols lp = [1, 0]" by (simp_all add: lp_def)
  from types_header_rewrite[OF h, of hl tc, THEN conjunct1]
  have a: "output_indexes tc 1 hl lp bopts = Some (''#types,string,,addr'' @ [NL], [])"
    by (simp add: t c o)
  have "\<exists>so se. output_indexes tc 0 dl lp bopts = Some (so, se)"
    by (simp add: output_indexes_def output_field_def tc_def lp_def bopts_def dl_def Let_def)
  then obtain so se where s: "output_indexes tc 0 dl lp bopts = Some (so, se)"
    by blast
  have le: "idx_range lp \<le> length (strsep_tokens (ifs lp) dl)" by (simp add: t o)
  from types_header_rewrite[OF h, of dl tc,
         THEN conjunct2, THEN conjunct2, THEN conjunct1, THEN mp, OF le, THEN spec, THEN spec, THEN mp, OF s]
  have "so = ''T,,time'' @ [NL]"
    by (simp add: t c o tc_def)
  with s have "\<exists>se. output_indexes tc 0 dl lp bopts = Some (''T,,time'' @ [NL], se)"
    by blast
  with a show ?thesis unfolding tc_def lp_def bopts_def hl_def dl_def by (intro conjI)
qed

text \<open>
  Claim C9 as stated fails for a line that the driver takes for a \<open>#types\<close> line, by its
  first six bytes, and whose first field is longer. With \<open>-C\<close> and \<open>-d\<close>, after a
  \<open>#fields\<close> line, the line that begins with \<open>#typesX\<close> passes the test of a
  \<open>#types\<close> line after a \<open>#fields\<close> line and is shown through \<open>output_indexes\<close>,
  and its type \<open>time\<close> is written as \<open>time\<close>, not as \<open>string\<close>.
\<close>

theorem types_tag_counterexample:
  "main_opts None [(CHR ''C'', []), (CHR ''d'', [])] [] = Some ((init_opts None)\<lparr>showhdr := 2, timeconv := 1\<rparr>)
   \<and> bro_cut (\<lambda>m f x. Some (''T'', [])) ((init_opts None)\<lparr>showhdr := 2, timeconv := 1\<rparr>)
       (''#fields'' @ [TAB] @ ''ts'' @ [NL] @ ''#typesX'' @ [TAB] @ ''time'' @ [NL] @ ''0'' @ [NL])
     = Some (0, ''#fields'' @ [TAB] @ ''ts'' @ [NL] @ ''#typesX'' @ [TAB] @ ''time'' @ [NL] @ ''0'' @ [NL], [])"
  by code_simp

section \<open>The loop of the driver\<close>

lemma strncmp0_prefix:
  assumes "strncmp0 line p n" "length p = n"
  shows "\<exists>rest. line = p @ rest"
proof -
  from assms have "take n line = p" by (simp add: strncmp0_def)
  then have "line = p @ drop n line" by (metis append_take_drop_id)
  then show ?thesis by blast
qed

lemma types_line_kind:
  assumes "strncmp0 line ''#types'' 6"
  shows "take 1 line = ''#''" "\<not> strncmp0 line ''#separator '' 11" "\<not> strncmp0 line ''#fields'' 7"
proof -
  from strncmp0_prefix[OF assms] obtain rest where r: "line = ''#types'' @ rest" by auto
  show "take 1 line = ''#''" "\<not> strncmp0 line ''#separator '' 11" "\<not> strncmp0 line ''#fields'' 7"
    unfolding r by (simp_all add: strncmp0_def)
qed

lemma fields_line_kind:
  assumes "strncmp0 line ''#fields'' 7"
  shows "take 1 line = ''#''" "\<not> strncmp0 line ''#separator '' 11" "\<not> strncmp0 line ''#types'' 6"
proof -
  from strncmp0_prefix[OF assms] obtain rest where r: "line = ''#fields'' @ rest" by auto
  show "take 1 line = ''#''" "\<not> strncmp0 line ''#separator '' 11" "\<not> strncmp0 line ''#types'' 6"
    unfolding r by (simp_all add: strncmp0_def)
qed

lemma show_header_Continue:
  assumes "show_header tc bopts st line = Continue st'"
  shows "lparams st' = lparams st" "headers_seen st' = headers_seen st"
        "prev_line_hdr st' = prev_line_hdr st" "prev_fields_line st' = prev_fields_line st"
        "ret st' = ret st"
  using assms by (auto simp: show_header_def split: if_splits option.splits)

lemma show_header_no_Break: "show_header tc bopts st line \<noteq> Break st'"
  by (auto simp: show_header_def split: if_splits option.splits)

lemma count_header_keeps:
  "lparams (count_header st) = lparams st"
  "prev_fields_line (count_header st) = prev_fields_line st"
  "ret (count_header st) = ret st"
  "stdout (count_header st) = stdout st"
  "stderr (count_header st) = stderr st"
  "prev_line_hdr (count_header st) \<noteq> 0"
  "headers_seen (count_header st)
     = (if prev_line_hdr st = 0 \<and> headers_seen st < 2 then headers_seen st + 1 else headers_seen st)"
  by (simp_all add: count_header_def)

lemma header_kind_Continue:
  assumes "header_kind bopts st buf = Continue st'"
  shows "headers_seen st' = headers_seen st" "prev_line_hdr st' = prev_line_hdr st"
        "ret st' = ret st" "stdout st' = stdout st" "stderr st' = stderr st"
        "prev_fields_line st' = (if strncmp0 (cstr buf) ''#fields'' 7 then 1
                                 else if strncmp0 (cstr buf) ''#types'' 6 then 0
                                 else prev_fields_line st)"
  using assms fields_line_kind(2)[of "cstr buf"] types_line_kind(2)[of "cstr buf"]
  by (auto simp: header_kind_def Let_def split: if_splits option.splits sum.splits)

lemma header_kind_Break:
  assumes "header_kind bopts st buf = Break st'"
  shows "ret st' = 1" "stdout st' = stdout st" "stderr st' \<noteq> []"
  using assms
  by (auto simp: header_kind_def Let_def find_timecol_def split: if_splits option.splits sum.splits)

lemma loop_body_missing_types:
  assumes "prev_fields_line st \<noteq> 0" "\<not> strncmp0 (cstr buf) ''#types'' 6"
  shows "loop_body tc bopts st buf =
           Break (st\<lparr>stderr := stderr st @ ''bro-cut: bad log header (missing #types line)'' @ [NL],
                     ret := 1\<rparr>)"
  using assms by (simp add: loop_body_def)

lemma loop_body_data:
  assumes "prev_fields_line st = 0" "take 1 (cstr buf) \<noteq> ''#''"
  shows "loop_body tc bopts st buf =
           (case output_indexes tc 0 (cstr buf) (lparams st) bopts of
              None \<Rightarrow> Crash
            | Some (so, se) \<Rightarrow>
                Continue (st\<lparr>prev_line_hdr := 0, stdout := stdout st @ so,
                             stderr := stderr st @ se\<rparr>))"
  using assms by (simp add: loop_body_def Let_def)

lemma loop_body_header:
  assumes "prev_fields_line st = 0 \<or> strncmp0 (cstr buf) ''#types'' 6" "take 1 (cstr buf) = ''#''"
  shows "loop_body tc bopts st buf =
           (case header_kind bopts (count_header st) buf of
              Continue st' \<Rightarrow> show_header tc bopts st' (cstr buf)
            | Break st' \<Rightarrow> Break st'
            | Crash \<Rightarrow> Crash)"
  using assms by (auto simp: loop_body_def)

lemma loop_body_types_nofields:
  assumes "strncmp0 (cstr buf) ''#types'' 6" "prev_fields_line st = 0"
  shows "loop_body tc bopts st buf =
           Break ((count_header st)\<lparr>stderr := stderr st @ ''bro-cut: bad log header (missing #fields line)'' @ [NL],
                                    ret := 1\<rparr>)"
proof -
  have "header_kind bopts (count_header st) buf =
          Break ((count_header st)\<lparr>stderr := stderr st @ ''bro-cut: bad log header (missing #fields line)'' @ [NL],
                                    ret := 1\<rparr>)"
    using assms types_line_kind[OF assms(1)]
    by (simp add: header_kind_def count_header_keeps)
  then show ?thesis
    using loop_body_header[of st buf tc bopts] assms types_line_kind(1)[OF assms(1)] by simp
qed

lemma loop_body_Continue:
  assumes "loop_body tc bopts st buf = Continue st'"
  shows "ret st' = ret st
    \<and> (prev_line_hdr st' \<noteq> 0) = (take 1 (cstr buf) = ''#'')
    \<and> headers_seen st' = (if take 1 (cstr buf) = ''#'' \<and> prev_line_hdr st = 0 \<and> headers_seen st < 2
                             then headers_seen st + 1 else headers_seen st)
    \<and> (prev_fields_line st' \<noteq> 0) = strncmp0 (cstr buf) ''#fields'' 7"
proof -
  have ok: "prev_fields_line st = 0 \<or> strncmp0 (cstr buf) ''#types'' 6"
    using assms loop_body_missing_types[of st buf tc bopts] by auto
  show ?thesis
  proof (cases "take 1 (cstr buf) = ''#''")
    case False
    then have p0: "prev_fields_line st = 0" using ok types_line_kind(1) by auto
    have nf: "\<not> strncmp0 (cstr buf) ''#fields'' 7" using False fields_line_kind(1) by auto
    from loop_body_data[OF p0 False, of tc bopts] assms
    obtain so se where
      e: "st' = st\<lparr>prev_line_hdr := 0, stdout := stdout st @ so, stderr := stderr st @ se\<rparr>"
      by (auto split: option.splits)
    show ?thesis unfolding e using False p0 nf by simp
  next
    case True
    from loop_body_header[OF ok True, of tc bopts] assms
    obtain st1 where h: "header_kind bopts (count_header st) buf = Continue st1"
      and e: "show_header tc bopts st1 (cstr buf) = Continue st'"
      by (auto split: flow.splits)
    note k = header_kind_Continue[OF h]
    note sh = show_header_Continue[OF e]
    have f: "(prev_fields_line st' \<noteq> 0) = strncmp0 (cstr buf) ''#fields'' 7"
    proof (cases "strncmp0 (cstr buf) ''#fields'' 7")
      case True
      then show ?thesis by (simp add: sh k)
    next
      case False
      then have "prev_fields_line st1 = 0"
        using ok k(6) by (auto simp: count_header_keeps)
      then show ?thesis using False by (simp add: sh)
    qed
    have "ret st' = ret st" by (simp add: sh k count_header_keeps)
    moreover have "(prev_line_hdr st' \<noteq> 0) = (take 1 (cstr buf) = ''#'')"
      using True by (simp add: sh k count_header_keeps)
    moreover have "headers_seen st' = (if take 1 (cstr buf) = ''#'' \<and> prev_line_hdr st = 0 \<and> headers_seen st < 2
                             then headers_seen st + 1 else headers_seen st)"
      using True by (simp add: sh k count_header_keeps)
    ultimately show ?thesis using f by blast
  qed
qed

lemma loop_body_Break:
  assumes "loop_body tc bopts st buf = Break st'"
  shows "ret st' = 1 \<and> stdout st' = stdout st \<and> stderr st' \<noteq> []"
proof (cases "prev_fields_line st \<noteq> 0 \<and> \<not> strncmp0 (cstr buf) ''#types'' 6")
  case True
  with loop_body_missing_types[of st buf tc bopts] assms
  have e: "st' = st\<lparr>stderr := stderr st @ ''bro-cut: bad log header (missing #types line)'' @ [NL],
                   ret := 1\<rparr>" by simp
  show ?thesis unfolding e by simp
next
  case False
  then have ok: "prev_fields_line st = 0 \<or> strncmp0 (cstr buf) ''#types'' 6" by auto
  have hd: "take 1 (cstr buf) = ''#''"
  proof (rule ccontr)
    assume n: "take 1 (cstr buf) \<noteq> ''#''"
    then have "prev_fields_line st = 0" using ok types_line_kind(1) by auto
    from loop_body_data[OF this n, of tc bopts] assms show False by (auto split: option.splits)
  qed
  have h: "header_kind bopts (count_header st) buf = Break st'"
  proof (cases "header_kind bopts (count_header st) buf")
    case (Continue st1)
    with loop_body_header[OF ok hd, of tc bopts] assms
    have "show_header tc bopts st1 (cstr buf) = Break st'" by simp
    with show_header_no_Break show ?thesis by blast
  next
    case (Break st1)
    with loop_body_header[OF ok hd, of tc bopts] assms show ?thesis by simp
  next
    case Crash
    with loop_body_header[OF ok hd, of tc bopts] assms show ?thesis by simp
  qed
  show ?thesis
    using header_kind_Break[OF h] by (simp add: count_header_keeps)
qed

lemma loop_append:
  "bro_cut_loop tc bopts st (xs @ ys) =
     (case bro_cut_loop tc bopts st xs of
        Continue st' \<Rightarrow> bro_cut_loop tc bopts st' ys
      | Break st' \<Rightarrow> Break st'
      | Crash \<Rightarrow> Crash)"
  by (induction xs arbitrary: st) (auto split: flow.splits)

lemma loop_Break:
  "bro_cut_loop tc bopts st ls = Break st' \<Longrightarrow> ret st' = 1 \<and> stderr st' \<noteq> []"
proof (induction ls arbitrary: st)
  case Nil
  then show ?case by simp
next
  case (Cons l ls)
  show ?case
  proof (cases "loop_body tc bopts st (butlast l)")
    case (Continue st1)
    with Cons.prems have "bro_cut_loop tc bopts st1 ls = Break st'" by simp
    then show ?thesis by (rule Cons.IH)
  next
    case (Break st1)
    with Cons.prems have "st1 = st'" by simp
    with loop_body_Break[OF Break] show ?thesis by simp
  next
    case Crash
    with Cons.prems show ?thesis by simp
  qed
qed

lemma header_blocks_snoc_arith:
  assumes "0 \<le> hs" "hs \<le> 2"
  shows "min 2 ((if hs < 2 then hs + 1 else hs) + int b) = min 2 (hs + int (Suc b))"
  using assms by auto

lemma loop_inv:
  assumes "bro_cut_loop tc bopts st pre = Continue st'"
  shows "ret st' = ret st
       \<and> (prev_fields_line st' \<noteq> 0)
           = (if pre = [] then prev_fields_line st \<noteq> 0
              else strncmp0 (cstr (butlast (last pre))) ''#fields'' 7)
       \<and> (prev_line_hdr st' \<noteq> 0)
           = (if pre = [] then prev_line_hdr st \<noteq> 0 else is_header (last pre))
       \<and> (0 \<le> headers_seen st \<and> headers_seen st \<le> 2 \<longrightarrow>
            headers_seen st' = min 2 (headers_seen st + int (header_blocks (prev_line_hdr st \<noteq> 0) pre)))"
  using assms
proof (induction pre arbitrary: st)
  case Nil
  then show ?case by auto
next
  case (Cons l ls)
  from Cons.prems obtain st1 where b: "loop_body tc bopts st (butlast l) = Continue st1"
    and r: "bro_cut_loop tc bopts st1 ls = Continue st'"
    by (auto split: flow.splits)
  note s = loop_body_Continue[OF b]
  note ih = Cons.IH[OF r]
  have h1: "(prev_line_hdr st1 \<noteq> 0) = is_header l" using s by (simp add: is_header_def)
  have a: "ret st' = ret st" using s ih by simp
  have f: "(prev_fields_line st' \<noteq> 0)
           = strncmp0 (cstr (butlast (last (l # ls)))) ''#fields'' 7"
    using s ih by (cases "ls = []") auto
  have p: "(prev_line_hdr st' \<noteq> 0) = is_header (last (l # ls))"
    using h1 ih by (cases "ls = []") auto
  have c: "0 \<le> headers_seen st \<and> headers_seen st \<le> 2 \<longrightarrow>
            headers_seen st' = min 2 (headers_seen st + int (header_blocks (prev_line_hdr st \<noteq> 0) (l # ls)))"
  proof
    assume rg: "0 \<le> headers_seen st \<and> headers_seen st \<le> 2"
    have hs1: "headers_seen st1 = (if is_header l \<and> prev_line_hdr st = 0 \<and> headers_seen st < 2
                             then headers_seen st + 1 else headers_seen st)"
      using s by (simp add: is_header_def)
    then have rg1: "0 \<le> headers_seen st1 \<and> headers_seen st1 \<le> 2" using rg by auto
    with ih have e: "headers_seen st' = min 2 (headers_seen st1 + int (header_blocks (is_header l) ls))"
      using h1 by simp
    show "headers_seen st' = min 2 (headers_seen st + int (header_blocks (prev_line_hdr st \<noteq> 0) (l # ls)))"
    proof (cases "is_header l \<and> prev_line_hdr st = 0")
      case True
      then show ?thesis
        using e hs1 rg header_blocks_snoc_arith[of "headers_seen st" "header_blocks True ls"] by simp
    next
      case False
      then show ?thesis using e hs1 by auto
    qed
  qed
  from a f p c show ?case by simp
qed

lemma last_header_last:
  "pre \<noteq> [] \<Longrightarrow> is_header (last pre) \<Longrightarrow> last_header pre = Some (last pre)"
  by (induction pre) (auto split: option.splits if_splits)

section \<open>The order of the \<open>#fields\<close> and \<open>#types\<close> lines\<close>

text \<open>
  Claim C7. Let the input stream hold the lines \<open>pre\<close>, then a line \<open>t\<close> that begins
  with \<open>#types\<close>, then the lines \<open>post\<close>, and let the last header line of \<open>pre\<close>,
  if there is one, not begin with \<open>#fields\<close>. When the run of \<open>bro_cut\<close> reaches
  \<open>t\<close>, it stops there: \<open>bro_cut\<close> returns 1, stdout is what the lines of \<open>pre\<close>
  wrote, and stderr is what they wrote followed by the diagnostic of the missing
  \<open>#fields\<close> line. When the run stopped at a line of \<open>pre\<close>, \<open>bro_cut\<close> returns 1
  as well, with a diagnostic on stderr; when the process died at a line of \<open>pre\<close>, it
  died. The lines after \<open>t\<close> are not processed: a stream that ends with \<open>t\<close> gives
  the same result. In no case does \<open>bro_cut\<close> return 0.
\<close>

theorem types_without_fields_aborts:
  assumes "getlines input = pre @ t # post"
      and "strncmp0 (cstr (butlast t)) ''#types'' 6"
      and "\<forall>h. last_header pre = Some h \<longrightarrow> \<not> strncmp0 (cstr (butlast h)) ''#fields'' 7"
  shows "(\<forall>st. bro_cut_loop tc bopts init_state pre = Continue st \<longrightarrow>
            bro_cut tc bopts input
              = Some (1, stdout st,
                      stderr st @ ''bro-cut: bad log header (missing #fields line)'' @ [NL]))
       \<and> (\<forall>st. bro_cut_loop tc bopts init_state pre = Break st \<longrightarrow>
            bro_cut tc bopts input = Some (1, stdout st, stderr st) \<and> stderr st \<noteq> [])
       \<and> (bro_cut_loop tc bopts init_state pre = Crash \<longrightarrow> bro_cut tc bopts input = None)
       \<and> (\<forall>input'. getlines input' = pre @ [t] \<longrightarrow>
            bro_cut tc bopts input' = bro_cut tc bopts input)
       \<and> (\<forall>out err. bro_cut tc bopts input \<noteq> Some (0, out, err))"
proof -
  let ?diag = "''bro-cut: bad log header (missing #fields line)'' @ [NL]"
  have step: "\<And>st. bro_cut_loop tc bopts init_state pre = Continue st \<Longrightarrow>
                loop_body tc bopts st (butlast t)
                  = Break ((count_header st)\<lparr>stderr := stderr st @ ?diag, ret := 1\<rparr>)"
  proof -
    fix st assume r: "bro_cut_loop tc bopts init_state pre = Continue st"
    have "prev_fields_line st = 0"
    proof (rule ccontr)
      assume n: "prev_fields_line st \<noteq> 0"
      with loop_inv[OF r] have ne: "pre \<noteq> []"
        and f: "strncmp0 (cstr (butlast (last pre))) ''#fields'' 7"
        by (auto simp: init_state_def split: if_splits)
      from fields_line_kind(1)[OF f] have "is_header (last pre)" by (simp add: is_header_def)
      from last_header_last[OF ne this] assms(3) f show False by simp
    qed
    then show "loop_body tc bopts st (butlast t)
                  = Break ((count_header st)\<lparr>stderr := stderr st @ ?diag, ret := 1\<rparr>)"
      by (rule loop_body_types_nofields[OF assms(2)])
  qed
  have run: "\<And>rest. bro_cut_loop tc bopts init_state (pre @ t # rest) =
               (case bro_cut_loop tc bopts init_state pre of
                  Continue st \<Rightarrow> Break ((count_header st)\<lparr>stderr := stderr st @ ?diag, ret := 1\<rparr>)
                | Break st \<Rightarrow> Break st
                | Crash \<Rightarrow> Crash)"
  proof -
    fix rest
    show "bro_cut_loop tc bopts init_state (pre @ t # rest) =
               (case bro_cut_loop tc bopts init_state pre of
                  Continue st \<Rightarrow> Break ((count_header st)\<lparr>stderr := stderr st @ ?diag, ret := 1\<rparr>)
                | Break st \<Rightarrow> Break st
                | Crash \<Rightarrow> Crash)"
    proof (cases "bro_cut_loop tc bopts init_state pre")
      case (Continue st)
      with step[OF Continue] show ?thesis by (simp add: loop_append)
    next
      case (Break st)
      then show ?thesis by (simp add: loop_append)
    next
      case Crash
      then show ?thesis by (simp add: loop_append)
    qed
  qed
  have c1: "\<forall>st. bro_cut_loop tc bopts init_state pre = Continue st \<longrightarrow>
            bro_cut tc bopts input = Some (1, stdout st, stderr st @ ?diag)"
    by (simp add: bro_cut_def assms(1) run count_header_keeps)
  have c2: "\<forall>st. bro_cut_loop tc bopts init_state pre = Break st \<longrightarrow>
            bro_cut tc bopts input = Some (1, stdout st, stderr st) \<and> stderr st \<noteq> []"
  proof (intro allI impI)
    fix st assume b: "bro_cut_loop tc bopts init_state pre = Break st"
    from loop_Break[OF b] b
    show "bro_cut tc bopts input = Some (1, stdout st, stderr st) \<and> stderr st \<noteq> []"
      by (simp add: bro_cut_def assms(1) run)
  qed
  have c3: "bro_cut_loop tc bopts init_state pre = Crash \<longrightarrow> bro_cut tc bopts input = None"
    by (simp add: bro_cut_def assms(1) run)
  have c4: "\<forall>input'. getlines input' = pre @ [t] \<longrightarrow>
            bro_cut tc bopts input' = bro_cut tc bopts input"
    by (simp add: bro_cut_def assms(1) run)
  have c5: "\<forall>out err. bro_cut tc bopts input \<noteq> Some (0, out, err)"
  proof (cases "bro_cut_loop tc bopts init_state pre")
    case (Continue st)
    with c1 show ?thesis by simp
  next
    case (Break st)
    with c2 show ?thesis by simp
  next
    case Crash
    with c3 show ?thesis by simp
  qed
  from c1 c2 c3 c4 c5 show ?thesis by blast
qed

text \<open>
  The theorem at the stream of a \<open>#close\<close> line, a \<open>#types\<close> line and one more line:
  the last header line before the \<open>#types\<close> line is no \<open>#fields\<close> line, the
  \<open>#types\<close> line stops the run, and \<open>bro_cut\<close> returns 1 with the diagnostic.
\<close>

theorem types_without_fields_aborts_witness:
  "bro_cut (\<lambda>m f x. Some ([], [])) (init_opts None)
     (''#close'' @ [NL] @ ''#types'' @ [TAB] @ ''a'' @ [NL] @ ''x'' @ [NL])
   = Some (1, [], ''bro-cut: bad log header (missing #fields line)'' @ [NL])"
proof -
  define input where "input = ''#close'' @ [NL] @ ''#types'' @ [TAB] @ ''a'' @ [NL] @ ''x'' @ [NL]"
  have gl: "getlines input = [''#close'' @ [NL]] @ (''#types'' @ [TAB] @ ''a'' @ [NL]) # [''x'' @ [NL]]"
    by (simp add: input_def)
  have h1: "strncmp0 (cstr (butlast (''#types'' @ [TAB] @ ''a'' @ [NL]))) ''#types'' 6"
    by (simp add: strncmp0_def cstr_def)
  have h2: "\<forall>h. last_header [''#close'' @ [NL]] = Some h \<longrightarrow>
                \<not> strncmp0 (cstr (butlast h)) ''#fields'' 7"
    by (simp add: is_header_def cstr_def strncmp0_def)
  have reach: "bro_cut_loop (\<lambda>m f x. Some ([], [])) (init_opts None) init_state [''#close'' @ [NL]]
                 = Continue (init_state\<lparr>headers_seen := 1, prev_line_hdr := 1\<rparr>)"
    by code_simp
  from types_without_fields_aborts[OF gl h1 h2, of "\<lambda>m f x. Some ([], [])" "init_opts None",
         THEN conjunct1, THEN spec, THEN mp, OF reach]
  show ?thesis unfolding input_def by (simp add: init_state_def)
qed

text \<open>
  Claim C10. Let the input stream hold the lines \<open>pre\<close>, then a line \<open>f\<close> that begins
  with \<open>#fields\<close>, then a line \<open>x\<close> that does not begin with \<open>#types\<close>, whatever
  else it is, then the lines \<open>post\<close>. When the run of \<open>bro_cut\<close> gets past \<open>f\<close>,
  it stops at \<open>x\<close>: \<open>bro_cut\<close> returns 1, stdout is what the lines up to \<open>f\<close>
  wrote, and stderr is what they wrote followed by the diagnostic of the missing
  \<open>#types\<close> line. When the run stopped at a line up to \<open>f\<close>, \<open>bro_cut\<close> returns 1
  as well, with a diagnostic on stderr; when the process died at a line up to \<open>f\<close>, it
  died. The lines after \<open>x\<close> are not processed, and in no case does \<open>bro_cut\<close>
  return 0.
\<close>

theorem fields_without_types_aborts:
  assumes "getlines input = pre @ f # x # post"
      and "strncmp0 (cstr (butlast f)) ''#fields'' 7"
      and "\<not> strncmp0 (cstr (butlast x)) ''#types'' 6"
  shows "(\<forall>st. bro_cut_loop tc bopts init_state (pre @ [f]) = Continue st \<longrightarrow>
            bro_cut tc bopts input
              = Some (1, stdout st,
                      stderr st @ ''bro-cut: bad log header (missing #types line)'' @ [NL]))
       \<and> (\<forall>st. bro_cut_loop tc bopts init_state (pre @ [f]) = Break st \<longrightarrow>
            bro_cut tc bopts input = Some (1, stdout st, stderr st) \<and> stderr st \<noteq> [])
       \<and> (bro_cut_loop tc bopts init_state (pre @ [f]) = Crash \<longrightarrow> bro_cut tc bopts input = None)
       \<and> (\<forall>input'. getlines input' = pre @ [f, x] \<longrightarrow>
            bro_cut tc bopts input' = bro_cut tc bopts input)
       \<and> (\<forall>out err. bro_cut tc bopts input \<noteq> Some (0, out, err))"
proof -
  let ?diag = "''bro-cut: bad log header (missing #types line)'' @ [NL]"
  have step: "\<And>st. bro_cut_loop tc bopts init_state (pre @ [f]) = Continue st \<Longrightarrow>
                loop_body tc bopts st (butlast x) = Break (st\<lparr>stderr := stderr st @ ?diag, ret := 1\<rparr>)"
  proof -
    fix st assume r: "bro_cut_loop tc bopts init_state (pre @ [f]) = Continue st"
    from loop_inv[OF r] assms(2) have "prev_fields_line st \<noteq> 0" by simp
    then show "loop_body tc bopts st (butlast x) = Break (st\<lparr>stderr := stderr st @ ?diag, ret := 1\<rparr>)"
      using assms(3) by (rule loop_body_missing_types)
  qed
  have run: "\<And>rest. bro_cut_loop tc bopts init_state (pre @ f # x # rest) =
               (case bro_cut_loop tc bopts init_state (pre @ [f]) of
                  Continue st \<Rightarrow> Break (st\<lparr>stderr := stderr st @ ?diag, ret := 1\<rparr>)
                | Break st \<Rightarrow> Break st
                | Crash \<Rightarrow> Crash)"
  proof -
    fix rest
    have ap: "pre @ f # x # rest = (pre @ [f]) @ x # rest" by simp
    show "bro_cut_loop tc bopts init_state (pre @ f # x # rest) =
               (case bro_cut_loop tc bopts init_state (pre @ [f]) of
                  Continue st \<Rightarrow> Break (st\<lparr>stderr := stderr st @ ?diag, ret := 1\<rparr>)
                | Break st \<Rightarrow> Break st
                | Crash \<Rightarrow> Crash)"
    proof (cases "bro_cut_loop tc bopts init_state (pre @ [f])")
      case (Continue st)
      have "bro_cut_loop tc bopts init_state ((pre @ [f]) @ x # rest)
              = Break (st\<lparr>stderr := stderr st @ ?diag, ret := 1\<rparr>)"
        unfolding loop_append[of tc bopts init_state "pre @ [f]" "x # rest"]
        using Continue step[OF Continue] by simp
      with Continue show ?thesis unfolding ap by simp
    next
      case (Break st)
      have "bro_cut_loop tc bopts init_state ((pre @ [f]) @ x # rest) = Break st"
        unfolding loop_append[of tc bopts init_state "pre @ [f]" "x # rest"] using Break by simp
      with Break show ?thesis unfolding ap by simp
    next
      case Crash
      have "bro_cut_loop tc bopts init_state ((pre @ [f]) @ x # rest) = Crash"
        unfolding loop_append[of tc bopts init_state "pre @ [f]" "x # rest"] using Crash by simp
      with Crash show ?thesis unfolding ap by simp
    qed
  qed
  have c1: "\<forall>st. bro_cut_loop tc bopts init_state (pre @ [f]) = Continue st \<longrightarrow>
            bro_cut tc bopts input = Some (1, stdout st, stderr st @ ?diag)"
  proof (intro allI impI)
    fix st assume r: "bro_cut_loop tc bopts init_state (pre @ [f]) = Continue st"
    show "bro_cut tc bopts input = Some (1, stdout st, stderr st @ ?diag)"
      unfolding bro_cut_def assms(1) run[of post] r by simp
  qed
  have c2: "\<forall>st. bro_cut_loop tc bopts init_state (pre @ [f]) = Break st \<longrightarrow>
            bro_cut tc bopts input = Some (1, stdout st, stderr st) \<and> stderr st \<noteq> []"
  proof (intro allI impI)
    fix st assume b: "bro_cut_loop tc bopts init_state (pre @ [f]) = Break st"
    from loop_Break[OF b]
    show "bro_cut tc bopts input = Some (1, stdout st, stderr st) \<and> stderr st \<noteq> []"
      unfolding bro_cut_def assms(1) run[of post] b by simp
  qed
  have c3: "bro_cut_loop tc bopts init_state (pre @ [f]) = Crash \<longrightarrow> bro_cut tc bopts input = None"
  proof
    assume c: "bro_cut_loop tc bopts init_state (pre @ [f]) = Crash"
    show "bro_cut tc bopts input = None"
      unfolding bro_cut_def assms(1) run[of post] c by simp
  qed
  have c4: "\<forall>input'. getlines input' = pre @ [f, x] \<longrightarrow>
            bro_cut tc bopts input' = bro_cut tc bopts input"
  proof (intro allI impI)
    fix input' assume g: "getlines input' = pre @ [f, x]"
    show "bro_cut tc bopts input' = bro_cut tc bopts input"
      unfolding bro_cut_def assms(1) g run[of post] run[of "[]"] ..
  qed
  have c5: "\<forall>out err. bro_cut tc bopts input \<noteq> Some (0, out, err)"
  proof (cases "bro_cut_loop tc bopts init_state (pre @ [f])")
    case (Continue st)
    with c1 show ?thesis by simp
  next
    case (Break st)
    with c2 show ?thesis by simp
  next
    case Crash
    with c3 show ?thesis by simp
  qed
  from c1 c2 c3 c4 c5 show ?thesis by blast
qed

text \<open>
  The theorem at the stream of a data line, a \<open>#fields\<close> line, a \<open>#close\<close> line and
  one more line: the data line is written as an empty line (no column is known yet), the
  \<open>#close\<close> line stops the run, and \<open>bro_cut\<close> returns 1 with the diagnostic.
\<close>

theorem fields_without_types_aborts_witness:
  "bro_cut (\<lambda>m f x. Some ([], [])) (init_opts None)
     (''x'' @ [NL] @ ''#fields'' @ [TAB] @ ''a'' @ [NL] @ ''#close'' @ [NL] @ ''y'' @ [NL])
   = Some (1, [NL], ''bro-cut: bad log header (missing #types line)'' @ [NL])"
proof -
  define input where
    "input = ''x'' @ [NL] @ ''#fields'' @ [TAB] @ ''a'' @ [NL] @ ''#close'' @ [NL] @ ''y'' @ [NL]"
  have gl: "getlines input
             = [''x'' @ [NL]] @ (''#fields'' @ [TAB] @ ''a'' @ [NL]) # (''#close'' @ [NL]) # [''y'' @ [NL]]"
    by (simp add: input_def)
  have h: "strncmp0 (cstr (butlast (''#fields'' @ [TAB] @ ''a'' @ [NL]))) ''#fields'' 7"
          "\<not> strncmp0 (cstr (butlast (''#close'' @ [NL]))) ''#types'' 6"
    by (simp_all add: strncmp0_def cstr_def)
  have reach: "bro_cut_loop (\<lambda>m f x. Some ([], [])) (init_opts None) init_state
                 ([''x'' @ [NL]] @ [''#fields'' @ [TAB] @ ''a'' @ [NL]])
                 = Continue (init_state\<lparr>lparams := (lparams init_state)\<lparr>num_fields := 1, out_indexes := [0], idx_range := 1\<rparr>,
                     headers_seen := 1, prev_line_hdr := 1, prev_fields_line := 1, stdout := [NL]\<rparr>)"
    by code_simp
  from fields_without_types_aborts[OF gl h, of "\<lambda>m f x. Some ([], [])" "init_opts None",
         THEN conjunct1, THEN spec, THEN mp, OF reach]
  show ?thesis unfolding input_def by (simp add: init_state_def)
qed

section \<open>Data lines with too few fields\<close>

text \<open>
  Claim C8, as the code has it. Let the run reach a line \<open>l\<close> that is no header line
  and does not directly follow a \<open>#fields\<close> line, and let \<open>l\<close> hold fewer fields,
  under the current input separator, than \<open>idx_range\<close>. Then the loop body writes the
  diagnostic of the skipped line to stderr and nothing to stdout, keeps \<open>ret\<close> (which
  is 0) and the parameters of the log, and the run goes on with the lines after \<open>l\<close>.
\<close>

theorem short_line_skipped:
  assumes "bro_cut_loop tc bopts init_state pre = Continue st"
      and "pre = [] \<or> \<not> strncmp0 (cstr (butlast (last pre))) ''#fields'' 7"
      and "\<not> is_header l"
      and "length (strsep_tokens (ifs (lparams st)) (cstr (butlast l))) < idx_range (lparams st)"
  shows "loop_body tc bopts st (butlast l)
           = Continue (st\<lparr>prev_line_hdr := 0,
                          stderr := stderr st @ ''bro-cut: skipping log line (not enough fields)'' @ [NL]\<rparr>)
       \<and> bro_cut_loop tc bopts init_state (pre @ l # post)
           = bro_cut_loop tc bopts
               (st\<lparr>prev_line_hdr := 0,
                    stderr := stderr st @ ''bro-cut: skipping log line (not enough fields)'' @ [NL]\<rparr>) post
       \<and> ret st = 0"
proof -
  have p0: "prev_fields_line st = 0"
    using loop_inv[OF assms(1)] assms(2) by (auto simp: init_state_def split: if_splits)
  have d: "take 1 (cstr (butlast l)) \<noteq> ''#''" using assms(3) by (simp add: is_header_def)
  have sk: "output_indexes tc 0 (cstr (butlast l)) (lparams st) bopts
              = Some ([], ''bro-cut: skipping log line (not enough fields)'' @ [NL])"
    using assms(4) by (intro output_indexes_skip) simp
  have b: "loop_body tc bopts st (butlast l)
           = Continue (st\<lparr>prev_line_hdr := 0,
                          stderr := stderr st @ ''bro-cut: skipping log line (not enough fields)'' @ [NL]\<rparr>)"
    using loop_body_data[OF p0 d, of tc bopts] by (simp add: sk)
  have "bro_cut_loop tc bopts init_state (pre @ l # post)
           = bro_cut_loop tc bopts
               (st\<lparr>prev_line_hdr := 0,
                    stderr := stderr st @ ''bro-cut: skipping log line (not enough fields)'' @ [NL]\<rparr>) post"
    using assms(1) b by (simp add: loop_append)
  moreover have "ret st = 0" using loop_inv[OF assms(1)] by (simp add: init_state_def)
  ultimately show ?thesis using b by blast
qed

text \<open>
  The theorem at a \<open>#fields\<close> line of two names, its \<open>#types\<close> line, a data line of
  one field and a data line of two: the first data line is skipped, the second is written,
  and \<open>ret\<close> stays 0.
\<close>

theorem short_line_skipped_witness:
  "bro_cut_loop (\<lambda>m f x. Some ([], [])) (init_opts None) init_state
     ([''#fields'' @ [TAB] @ ''a'' @ [TAB] @ ''b'' @ [NL], ''#types'' @ [TAB] @ ''x'' @ [TAB] @ ''y'' @ [NL]]
        @ (''1'' @ [NL]) # [''2'' @ [TAB] @ ''3'' @ [NL]])
   = Continue (init_state\<lparr>lparams := (lparams init_state)\<lparr>num_fields := 2, out_indexes := [0, 1], idx_range := 2\<rparr>,
                  headers_seen := 1,
                  stdout := ''2'' @ [TAB] @ ''3'' @ [NL],
                  stderr := ''bro-cut: skipping log line (not enough fields)'' @ [NL]\<rparr>)"
proof -
  let ?pre = "[''#fields'' @ [TAB] @ ''a'' @ [TAB] @ ''b'' @ [NL], ''#types'' @ [TAB] @ ''x'' @ [TAB] @ ''y'' @ [NL]]"
  let ?st = "init_state\<lparr>lparams := (lparams init_state)\<lparr>num_fields := 2, out_indexes := [0, 1], idx_range := 2\<rparr>,
                  headers_seen := 1, prev_line_hdr := 1\<rparr>"
  have reach: "bro_cut_loop (\<lambda>m f x. Some ([], [])) (init_opts None) init_state ?pre = Continue ?st"
    by code_simp
  have h: "?pre = [] \<or> \<not> strncmp0 (cstr (butlast (last ?pre))) ''#fields'' 7"
          "\<not> is_header (''1'' @ [NL])"
          "length (strsep_tokens (ifs (lparams ?st)) (cstr (butlast (''1'' @ [NL])))) < idx_range (lparams ?st)"
    by (simp_all add: strncmp0_def cstr_def is_header_def init_state_def)
  have rest: "bro_cut_loop (\<lambda>m f x. Some ([], [])) (init_opts None)
                (?st\<lparr>prev_line_hdr := 0,
                    stderr := stderr ?st @ ''bro-cut: skipping log line (not enough fields)'' @ [NL]\<rparr>)
                [''2'' @ [TAB] @ ''3'' @ [NL]]
              = Continue (init_state\<lparr>lparams := (lparams init_state)\<lparr>num_fields := 2, out_indexes := [0, 1], idx_range := 2\<rparr>,
                  headers_seen := 1,
                  stdout := ''2'' @ [TAB] @ ''3'' @ [NL],
                  stderr := ''bro-cut: skipping log line (not enough fields)'' @ [NL]\<rparr>)"
    by code_simp
  from short_line_skipped[OF reach h, of "[''2'' @ [TAB] @ ''3'' @ [NL]]", THEN conjunct2, THEN conjunct1]
  show ?thesis by (simp only: rest)
qed

text \<open>
  Claim C8 as stated fails for a data line that directly follows a \<open>#fields\<close> line.
  After the \<open>#fields\<close> line of the names \<open>a\<close> and \<open>b\<close>, \<open>idx_range\<close> is 2; the
  next line is a data line of one field; the run does not skip it and go on, it stops
  there with the diagnostic of a missing \<open>#types\<close> line and returns 1, and the data line
  after it is never written.
\<close>

theorem short_line_after_fields_counterexample:
  "bro_cut_loop (\<lambda>m f x. Some ([], [])) (init_opts None) init_state
     [''#fields'' @ [TAB] @ ''a'' @ [TAB] @ ''b'' @ [NL]]
     = Continue (init_state\<lparr>lparams := (lparams init_state)\<lparr>num_fields := 2, out_indexes := [0, 1],
                                                            idx_range := 2\<rparr>,
                   headers_seen := 1, prev_line_hdr := 1, prev_fields_line := 1\<rparr>)
   \<and> \<not> is_header (''1'' @ [NL])
   \<and> length (strsep_tokens TAB (cstr (butlast (''1'' @ [NL])))) < 2
   \<and> bro_cut (\<lambda>m f x. Some ([], [])) (init_opts None)
       (''#fields'' @ [TAB] @ ''a'' @ [TAB] @ ''b'' @ [NL] @ ''1'' @ [NL] @ ''2'' @ [TAB] @ ''3'' @ [NL])
     = Some (1, [], ''bro-cut: bad log header (missing #types line)'' @ [NL])"
  by code_simp

section \<open>The display of header lines\<close>

lemma loop_body_header_out:
  assumes "loop_body tc bopts st buf = Continue st'" "take 1 (cstr buf) = ''#''"
  shows "Some (stdout st', stderr st') =
           (if headers_seen st' \<le> showhdr bopts
            then (if strncmp0 (cstr buf) ''#fields'' 7 \<or> strncmp0 (cstr buf) ''#types'' 6
                  then map_option (\<lambda>(so, se). (stdout st @ so, stderr st @ se))
                         (output_indexes tc 1 (cstr buf) (lparams st') bopts)
                  else Some (stdout st @ cstr buf @ [NL], stderr st))
            else Some (stdout st, stderr st))"
proof -
  have ok: "prev_fields_line st = 0 \<or> strncmp0 (cstr buf) ''#types'' 6"
    using assms(1) loop_body_missing_types[of st buf tc bopts] by auto
  from loop_body_header[OF ok assms(2), of tc bopts] assms(1)
  obtain st1 where h: "header_kind bopts (count_header st) buf = Continue st1"
    and e: "show_header tc bopts st1 (cstr buf) = Continue st'"
    by (auto split: flow.splits)
  note k = header_kind_Continue[OF h]
  have o: "stdout st1 = stdout st" "stderr st1 = stderr st"
    using k by (simp_all add: count_header_keeps)
  have l: "lparams st' = lparams st1" "headers_seen st' = headers_seen st1"
    using show_header_Continue[OF e] by simp_all
  show ?thesis
    unfolding l using e o
    by (auto simp: show_header_def split: if_splits option.splits)
qed

lemma header_blocks_first:
  "is_header h \<Longrightarrow> 1 \<le> header_blocks False (pre @ [h])"
  by (induction pre) auto

text \<open>
  Claim C3, as the code has it. Let the run reach a header line \<open>h\<close> and the loop body
  not stop at it. Then \<open>headers_seen\<close> is the number of header blocks that begin in
  the lines up to \<open>h\<close>, capped at 2: it goes up only at a header line that follows a
  line that is no header line (or stands first), and a line that is no header line leaves
  it as it is. The line is shown exactly when \<open>headers_seen\<close> is at most \<open>showhdr\<close>:
  a \<open>#fields\<close> or \<open>#types\<close> line by what \<open>output_indexes\<close> writes for it as a
  header line, any other header line as it is, followed by a newline. So with
  \<open>showhdr\<close> 0, the value without \<open>-c\<close> or \<open>-C\<close>, no header line is shown; with 1
  those of the first block; with 2 all of them.
\<close>

theorem header_display:
  assumes "bro_cut_loop tc bopts init_state pre = Continue st"
      and "is_header h"
      and "loop_body tc bopts st (butlast h) = Continue st'"
  shows "headers_seen st' = min 2 (int (header_blocks False (pre @ [h])))
       \<and> Some (stdout st', stderr st') =
           (if headers_seen st' \<le> showhdr bopts
            then (if strncmp0 (cstr (butlast h)) ''#fields'' 7 \<or> strncmp0 (cstr (butlast h)) ''#types'' 6
                  then map_option (\<lambda>(so, se). (stdout st @ so, stderr st @ se))
                         (output_indexes tc 1 (cstr (butlast h)) (lparams st') bopts)
                  else Some (stdout st @ cstr (butlast h) @ [NL], stderr st))
            else Some (stdout st, stderr st))
       \<and> (\<forall>l st2. \<not> is_header l \<and> loop_body tc bopts st (butlast l) = Continue st2
             \<longrightarrow> headers_seen st2 = headers_seen st)
       \<and> (showhdr bopts = 0 \<longrightarrow> stdout st' = stdout st \<and> stderr st' = stderr st)
       \<and> (showhdr bopts = 1 \<longrightarrow>
             (headers_seen st' \<le> showhdr bopts) = (header_blocks False (pre @ [h]) = 1))
       \<and> (showhdr bopts = 2 \<longrightarrow> headers_seen st' \<le> showhdr bopts)"
proof -
  have "bro_cut_loop tc bopts init_state (pre @ [h]) = Continue st'"
    using assms(1,3) by (simp add: loop_append)
  from loop_inv[OF this]
  have c1: "headers_seen st' = min 2 (int (header_blocks False (pre @ [h])))"
    by (simp add: init_state_def)
  have c2: "Some (stdout st', stderr st') =
           (if headers_seen st' \<le> showhdr bopts
            then (if strncmp0 (cstr (butlast h)) ''#fields'' 7 \<or> strncmp0 (cstr (butlast h)) ''#types'' 6
                  then map_option (\<lambda>(so, se). (stdout st @ so, stderr st @ se))
                         (output_indexes tc 1 (cstr (butlast h)) (lparams st') bopts)
                  else Some (stdout st @ cstr (butlast h) @ [NL], stderr st))
            else Some (stdout st, stderr st))"
    using assms(2) by (intro loop_body_header_out[OF assms(3)]) (simp add: is_header_def)
  have c3: "\<forall>l st2. \<not> is_header l \<and> loop_body tc bopts st (butlast l) = Continue st2
             \<longrightarrow> headers_seen st2 = headers_seen st"
  proof (intro allI impI)
    fix l st2 assume a: "\<not> is_header l \<and> loop_body tc bopts st (butlast l) = Continue st2"
    from loop_body_Continue[OF conjunct2[OF a]] a
    show "headers_seen st2 = headers_seen st" by (simp add: is_header_def)
  qed
  have ge: "1 \<le> header_blocks False (pre @ [h])" by (rule header_blocks_first[OF assms(2)])
  have c4: "showhdr bopts = 0 \<longrightarrow> stdout st' = stdout st \<and> stderr st' = stderr st"
  proof
    assume z: "showhdr bopts = 0"
    have "\<not> headers_seen st' \<le> showhdr bopts" using c1 ge z by simp
    with c2 show "stdout st' = stdout st \<and> stderr st' = stderr st" by simp
  qed
  have c5: "showhdr bopts = 1 \<longrightarrow>
             (headers_seen st' \<le> showhdr bopts) = (header_blocks False (pre @ [h]) = 1)"
    using c1 ge by auto
  have c6: "showhdr bopts = 2 \<longrightarrow> headers_seen st' \<le> showhdr bopts"
    using c1 by simp
  from c1 c2 c3 c4 c5 c6 show ?thesis by blast
qed

text \<open>
  The theorem with \<open>showhdr\<close> 1, at the \<open>#close\<close> line that follows a first block
  and a data line: it begins the second block and is not shown, while the header lines
  of the first block were.
\<close>

theorem header_display_witness:
  "\<exists>st st'. bro_cut_loop (\<lambda>m f x. Some ([], [])) ((init_opts None)\<lparr>showhdr := 1\<rparr>) init_state
              [''#fields'' @ [TAB] @ ''a'' @ [NL], ''#types'' @ [TAB] @ ''t'' @ [NL], ''1'' @ [NL]]
              = Continue st
     \<and> loop_body (\<lambda>m f x. Some ([], [])) ((init_opts None)\<lparr>showhdr := 1\<rparr>) st
          (butlast (''#close'' @ [NL])) = Continue st'
     \<and> headers_seen st' = 2 \<and> stdout st' = stdout st \<and> stderr st' = stderr st"
proof -
  let ?tc = "\<lambda>(m::int) (f::string) (x::string). Some ([]::string, []::string)"
  let ?bopts = "(init_opts None)\<lparr>showhdr := 1\<rparr>"
  let ?pre = "[''#fields'' @ [TAB] @ ''a'' @ [NL], ''#types'' @ [TAB] @ ''t'' @ [NL], ''1'' @ [NL]]"
  let ?st = "init_state\<lparr>lparams := (lparams init_state)\<lparr>num_fields := 1, out_indexes := [0], idx_range := 1\<rparr>,
                headers_seen := 1,
                stdout := ''#fields'' @ [TAB] @ ''a'' @ [NL] @ ''#types'' @ [TAB] @ ''t'' @ [NL] @ ''1'' @ [NL]\<rparr>"
  let ?st' = "?st\<lparr>headers_seen := 2, prev_line_hdr := 1\<rparr>"
  have reach: "bro_cut_loop ?tc ?bopts init_state ?pre = Continue ?st" by code_simp
  have hd: "is_header (''#close'' @ [NL])" by (simp add: is_header_def cstr_def)
  have step: "loop_body ?tc ?bopts ?st (butlast (''#close'' @ [NL])) = Continue ?st'" by code_simp
  have hb: "header_blocks False (?pre @ [''#close'' @ [NL]]) = 2" by (simp add: is_header_def cstr_def)
  from header_display[OF reach hd step]
  have "headers_seen ?st' = 2 \<and> stdout ?st' = stdout ?st \<and> stderr ?st' = stderr ?st"
    by (simp add: hb init_opts_def)
  with reach step show ?thesis by blast
qed

text \<open>
  Claim C3 as stated fails for the default display setting. \<open>main\<close> without \<open>-c\<close>
  or \<open>-C\<close> leaves \<open>showhdr\<close> at 0, and then, of two header blocks, not the header
  lines of the first block are written but none: stdout holds the two data lines only.
\<close>

theorem default_shows_no_header_counterexample:
  "main_opts None [] [] = Some (init_opts None)
   \<and> bro_cut (\<lambda>m f x. Some ([], [])) (init_opts None)
       (''#fields'' @ [TAB] @ ''a'' @ [NL] @ ''#types'' @ [TAB] @ ''t'' @ [NL] @ ''1'' @ [NL]
        @ ''#fields'' @ [TAB] @ ''a'' @ [NL] @ ''#types'' @ [TAB] @ ''t'' @ [NL] @ ''2'' @ [NL])
     = Some (0, ''1'' @ [NL] @ ''2'' @ [NL], [])"
  by code_simp

section \<open>The output separator\<close>

text \<open>
  Claim C4. \<open>bro_cut\<close> starts with a tab as output separator and looks at the
  separator of the option \<open>-F\<close> only when it reads a \<open>#separator\<close> line. With
  \<open>-F ,\<close> and an input of a \<open>#fields\<close> line, a \<open>#types\<close> line and a data line,
  without a \<open>#separator\<close> line, the two fields of the data line are written with a tab
  between them; with the \<open>#separator\<close> line in front they are written with the comma.
\<close>

theorem ofs_override_without_separator_line:
  "main_opts None [(CHR ''F'', '','')] [] = Some ((init_opts None)\<lparr>opt_ofs := '',''\<rparr>)
   \<and> bro_cut (\<lambda>m f x. Some ([], [])) ((init_opts None)\<lparr>opt_ofs := '',''\<rparr>)
       (''#fields'' @ [TAB] @ ''a'' @ [TAB] @ ''b'' @ [NL] @ ''#types'' @ [TAB] @ ''x'' @ [TAB] @ ''y'' @ [NL]
        @ ''1'' @ [TAB] @ ''2'' @ [NL])
     = Some (0, ''1'' @ [TAB] @ ''2'' @ [NL], [])
   \<and> bro_cut (\<lambda>m f x. Some ([], [])) ((init_opts None)\<lparr>opt_ofs := '',''\<rparr>)
       (''#separator '' @ [BSL] @ ''x09'' @ [NL]
        @ ''#fields'' @ [TAB] @ ''a'' @ [TAB] @ ''b'' @ [NL] @ ''#types'' @ [TAB] @ ''x'' @ [TAB] @ ''y'' @ [NL]
        @ ''1'' @ [TAB] @ ''2'' @ [NL])
     = Some (0, ''1,2'' @ [NL], [])"
  by code_simp

end
